theory Spec2Isabelle
  imports Main "HOL-Library.Char_ord" "HOL-Library.List_Lexorder"
begin

section \<open>Strings\<close>

text \<open>
  A Python \<open>str\<close> is modelled as a \<^typ>\<open>string\<close>: a list of characters, each a code
  point below 256. The order on strings is the lexicographic order by code point, which
  is the order Python's \<open>sorted\<close> uses on \<open>str\<close>.
\<close>

text \<open>
  \<open>str.isspace\<close> on one character: the code points below 256 that Python counts as
  whitespace (TAB, LF, VT, FF, CR, FS, GS, RS, US, space, NEL, NBSP).
\<close>

definition isspace :: "char \<Rightarrow> bool" where
  "isspace c \<longleftrightarrow> (of_char c :: nat) \<in> {9, 10, 11, 12, 13, 28, 29, 30, 31, 32, 133, 160}"

text \<open>\<open>s.strip()\<close>: leading and trailing whitespace removed.\<close>

definition strip :: "string \<Rightarrow> string" where
  "strip s = rev (dropWhile isspace (rev (dropWhile isspace s)))"

text \<open>
  \<open>s.split(sep)\<close> for a one-character separator: the pieces between separators, empty
  pieces kept, so the result is never the empty list (\<open>''''.split(',') == ['']\<close>).
\<close>

fun split :: "char \<Rightarrow> string \<Rightarrow> string list" where
  "split sep [] = [ [] ]"
| "split sep (c # cs) =
     (let r = split sep cs in if c = sep then [] # r else (c # hd r) # tl r)"

section \<open>The catalog table\<close>

text \<open>
  A row of \<open>netflix_content\<close> (class \<open>NetflixContent\<close>). A nullable column is an
  \<open>option\<close>, \<open>None\<close> being SQL NULL. The surrogate key \<open>id\<close> is assigned by the
  database and read by none of the functions below; it is left out.
\<close>

record netflix_content =
  show_id :: string
  type :: "string option"
  title :: "string option"
  director :: "string option"
  cast :: "string option"
  country :: "string option"
  date_added :: "string option"
  release_year :: "int option"
  rating :: "string option"
  duration :: "string option"
  listed_in :: "string option"
  description :: "string option"

type_synonym store = "netflix_content list"

text \<open>
  \<open>db.query(col).filter(col != '').all()\<close>: the values of one column, in table order,
  of the rows where the comparison is true. \<open>NULL != ''\<close> is NULL in SQL, so a NULL
  value is dropped together with the empty string.
\<close>

definition query_nonempty :: "(netflix_content \<Rightarrow> string option) \<Rightarrow> store \<Rightarrow> string list" where
  "query_nonempty col rows =
     concat (map (\<lambda>r. case col r of None \<Rightarrow> [] | Some s \<Rightarrow> if s \<noteq> [] then [s] else []) rows)"

section \<open>Facets: unique filter values\<close>





text \<open>\<open>get_all_ratings\<close>: \<open>sorted([r[0] for r in ratings if r[0]])\<close> over the distinct
  non-empty ratings.\<close>

definition get_all_ratings :: "store \<Rightarrow> string list" where
  "get_all_ratings db = sort (filter (\<lambda>r. r \<noteq> []) (remdups (query_nonempty rating db)))"



section \<open>Statistics\<close>

text \<open>
  A Python \<open>dict\<close> keeps its keys in insertion order, and \<open>sorted\<close> is stable, so the
  order of \<open>category_counts.items()\<close> decides the order of equal counts. The dictionary
  is an association list in insertion order.
\<close>

type_synonym counts = "(string \<times> int) list"

text \<open>\<open>d.get(k, default)\<close>.\<close>

fun dict_get :: "counts \<Rightarrow> string \<Rightarrow> int \<Rightarrow> int" where
  "dict_get [] k dflt = dflt"
| "dict_get ((k', v) # d) k dflt = (if k' = k then v else dict_get d k dflt)"

text \<open>\<open>d[k] = v\<close>: an existing key keeps its place, a new key goes to the end.\<close>

fun dict_set :: "counts \<Rightarrow> string \<Rightarrow> int \<Rightarrow> counts" where
  "dict_set [] k v = [(k, v)]"
| "dict_set ((k', v') # d) k v = (if k' = k then (k, v) # d else (k', v') # dict_set d k v)"

text \<open>\<open>[cat.strip() for cat in row[0].split(',')]\<close>.\<close>

definition tokens :: "string \<Rightarrow> string list" where
  "tokens field = map strip (split CHR '','' field)"

text \<open>
  \<^verbatim>\<open>
  category_counts = {}
  for row in genres_query:
      if row[0]:
          categories = [cat.strip() for cat in row[0].split(',')]
          for category in categories:
              category_counts[category] = category_counts.get(category, 0) + 1
  \<close>
\<close>

definition count_category :: "string \<Rightarrow> counts \<Rightarrow> counts" where
  "count_category category category_counts =
     dict_set category_counts category (dict_get category_counts category 0 + 1)"

definition count_row :: "string \<Rightarrow> counts \<Rightarrow> counts" where
  "count_row field category_counts =
     (if field \<noteq> [] then fold count_category (tokens field) category_counts
      else category_counts)"

definition category_counts :: "string list \<Rightarrow> counts" where
  "category_counts genres_query = fold count_row genres_query []"

text \<open>
  \<open>sorted(items, key=lambda x: x[1], reverse=True)\<close>: by count, largest first; entries
  with equal counts keep the order they had (Python's sort is stable, also with
  \<open>reverse=True\<close>). \<^const>\<open>sort_key\<close> is a stable insertion sort.
\<close>

definition sorted_by_count_desc :: "counts \<Rightarrow> counts" where
  "sorted_by_count_desc items = sort_key (\<lambda>x. - snd x) items"

text \<open>
  \<open>rating_stats\<close>: \<open>GROUP BY rating ORDER BY count DESC\<close> over the rows whose rating is
  neither NULL nor empty. SQL leaves the order of equal counts open; the model lists
  them in order of first occurrence.
\<close>

definition rating_stats :: "store \<Rightarrow> counts" where
  "rating_stats db = sorted_by_count_desc (fold count_category (query_nonempty rating db) [])"

record content_stats =
  total_content :: int
  movies :: int
  tv_shows :: int
  by_rating :: counts
  by_category :: counts

text \<open>
  \<open>get_statistics\<close> of the data loader. \<open>type == 'Movie'\<close> is not true of a NULL type.
\<close>

definition get_statistics :: "store \<Rightarrow> content_stats" where
  "get_statistics db =
     (let total_count = int (length db);
          movie_count = int (length (filter (\<lambda>r. type r = Some ''Movie'') db));
          tv_show_count = int (length (filter (\<lambda>r. type r = Some ''TV Show'') db));
          genres_query = query_nonempty listed_in db;
          sorted_categories = take 20 (sorted_by_count_desc (category_counts genres_query))
      in \<lparr> total_content = total_count, movies = movie_count, tv_shows = tv_show_count,
           by_rating = rating_stats db, by_category = sorted_categories \<rparr>)"


section \<open>Query layer\<close>

datatype api_error = ValidationError | NotFound

text \<open>
  \<open>col.ilike(pattern)\<close> is SQL \<open>ILIKE\<close>. In a pattern \<open>%\<close> stands for any run of
  characters, \<open>_\<close> for any one character, and a backslash takes the character after it
  literally. A pattern that ends in a lone backslash is an error in PostgreSQL; every
  pattern built below ends in \<open>%\<close>, and \<open>like_match\<close> answers \<open>False\<close> there.
\<close>

fun like_match :: "string \<Rightarrow> string \<Rightarrow> bool" where
  "like_match [] s = (s = [])"
| "like_match (p # ps) [] = (p = CHR ''%'' \<and> like_match ps [])"
| "like_match (p # ps) (c # t) =
     (if p = CHR ''%'' then like_match ps (c # t) \<or> like_match (p # ps) t
      else if p = CHR ''_'' then like_match ps t
      else if p = CHR 0x5C then
        (case ps of [] \<Rightarrow> False | e # ps' \<Rightarrow> c = e \<and> like_match ps' t)
      else c = p \<and> like_match ps t)"

text \<open>Case folding of \<open>ILIKE\<close>: the letters A to Z are folded to a to z.\<close>

definition lower_char :: "char \<Rightarrow> char" where
  "lower_char c =
     (if CHR ''A'' \<le> c \<and> c \<le> CHR ''Z'' then char_of (of_char c + (32 :: nat)) else c)"

definition lower :: "string \<Rightarrow> string" where
  "lower s = map lower_char s"

text \<open>SQL conditions are three-valued: \<open>None\<close> is NULL, and a row is kept only when
  its condition is true.\<close>

definition ilike :: "string option \<Rightarrow> string \<Rightarrow> bool option" where
  "ilike col pattern = map_option (\<lambda>s. like_match (lower pattern) (lower s)) col"

definition sql_eq :: "'a option \<Rightarrow> 'a \<Rightarrow> bool option" where
  "sql_eq col v = map_option (\<lambda>x. x = v) col"

fun sql_or :: "bool option \<Rightarrow> bool option \<Rightarrow> bool option" where
  "sql_or (Some True) _ = Some True"
| "sql_or _ (Some True) = Some True"
| "sql_or (Some False) (Some False) = Some False"
| "sql_or _ _ = None"

definition query_filter :: "(netflix_content \<Rightarrow> bool option) \<Rightarrow> store \<Rightarrow> store" where
  "query_filter cond query = filter (\<lambda>r. cond r = Some True) query"

text \<open>\<open>f"%{q}%"\<close>.\<close>

definition contains_pattern :: "string \<Rightarrow> string" where
  "contains_pattern q = CHR ''%'' # q @ [CHR ''%'']"

text \<open>
  The guards of \<open>get_content\<close> are Python truth tests: \<open>if type:\<close> is false for
  \<open>None\<close> and for the empty string, \<open>if release_year:\<close> is false for \<open>None\<close> and
  for \<open>0\<close>.
\<close>

definition filter_eq_str ::
  "string option \<Rightarrow> (netflix_content \<Rightarrow> string option) \<Rightarrow> store \<Rightarrow> store" where
  "filter_eq_str param col query =
     (case param of None \<Rightarrow> query
      | Some v \<Rightarrow> if v \<noteq> [] then query_filter (\<lambda>r. sql_eq (col r) v) query else query)"

definition filter_eq_int ::
  "int option \<Rightarrow> (netflix_content \<Rightarrow> int option) \<Rightarrow> store \<Rightarrow> store" where
  "filter_eq_int param col query =
     (case param of None \<Rightarrow> query
      | Some v \<Rightarrow> if v \<noteq> 0 then query_filter (\<lambda>r. sql_eq (col r) v) query else query)"

definition filter_ilike ::
  "string option \<Rightarrow> (netflix_content \<Rightarrow> string option) \<Rightarrow> store \<Rightarrow> store" where
  "filter_ilike param col query =
     (case param of None \<Rightarrow> query
      | Some v \<Rightarrow>
          if v \<noteq> [] then query_filter (\<lambda>r. ilike (col r) (contains_pattern v)) query
          else query)"

text \<open>The query parameters of \<open>GET /content/\<close>; \<open>None\<close> is a parameter left out.\<close>

record content_params =
  type_param :: "string option"
  rating_param :: "string option"
  release_year_param :: "int option"
  country_param :: "string option"
  category_param :: "string option"
  title_param :: "string option"
  director_param :: "string option"
  cast_param :: "string option"
  limit_param :: "int option"
  offset_param :: "int option"

text \<open>A query parameter with a default: the value given, or the default when it is
  left out.\<close>

definition with_default :: "int \<Rightarrow> int option \<Rightarrow> int" where
  "with_default d param = (case param of None \<Rightarrow> d | Some v \<Rightarrow> v)"

text \<open>\<open>limit: int = Query(20, ge=1, le=100)\<close> and \<open>offset: int = Query(0, ge=0)\<close>:
  a value outside the bounds is a validation error, raised before the handler runs.\<close>

definition validate_page :: "int option \<Rightarrow> int option \<Rightarrow> api_error + (int \<times> int)" where
  "validate_page limit_p offset_p =
     (let limit = with_default 20 limit_p;
          offset = with_default 0 offset_p
      in if 1 \<le> limit \<and> limit \<le> 100 \<and> 0 \<le> offset then Inr (limit, offset)
         else Inl ValidationError)"

text \<open>\<open>query.offset(offset).limit(limit).all()\<close>.\<close>

definition page :: "int \<Rightarrow> int \<Rightarrow> store \<Rightarrow> store" where
  "page limit offset query = take (nat limit) (drop (nat offset) query)"

text \<open>The filters of \<open>get_content\<close>, applied in the order of the source.\<close>

definition content_query :: "content_params \<Rightarrow> store \<Rightarrow> store" where
  "content_query p db =
     (let query = db;
          query = filter_eq_str (type_param p) type query;
          query = filter_eq_str (rating_param p) rating query;
          query = filter_eq_int (release_year_param p) release_year query;
          query = filter_ilike (country_param p) country query;
          query = filter_ilike (category_param p) listed_in query;
          query = filter_ilike (title_param p) title query;
          query = filter_ilike (director_param p) director query;
          query = filter_ilike (cast_param p) cast query
      in query)"

definition get_content :: "content_params \<Rightarrow> store \<Rightarrow> api_error + store" where
  "get_content p db =
     (case validate_page (limit_param p) (offset_param p) of
        Inl e \<Rightarrow> Inl e
      | Inr (limit, offset) \<Rightarrow> Inr (page limit offset (content_query p db)))"

text \<open>
  \<open>search_content\<close>: \<open>q\<close> is required (\<open>Query(..., min_length=1)\<close>); the handler body
  runs only after the parameters have passed validation.
\<close>

definition search_query :: "string \<Rightarrow> store \<Rightarrow> store" where
  "search_query q db =
     (let search_pattern = contains_pattern q
      in query_filter
           (\<lambda>r. sql_or (sql_or (sql_or (ilike (title r) search_pattern)
                               (ilike (director r) search_pattern))
                          (ilike (cast r) search_pattern))
                     (ilike (description r) search_pattern)) db)"

definition search_content :: "string option \<Rightarrow> int option \<Rightarrow> int option \<Rightarrow> store \<Rightarrow> api_error + store" where
  "search_content q limit_p offset_p db =
     (case q of None \<Rightarrow> Inl ValidationError
      | Some q' \<Rightarrow>
          if length q' < 1 then Inl ValidationError
          else (case validate_page limit_p offset_p of
                  Inl e \<Rightarrow> Inl e
                | Inr (limit, offset) \<Rightarrow> Inr (page limit offset (search_query q' db))))"



section \<open>Bulk importer\<close>

datatype import_error = ReadError | IntegrityError | DataError

text \<open>
  One row of the data frame after lines 32 to 38 of the loader: every text cell is a
  string, empty for a blank cell (\<open>fillna('')\<close>); \<open>csv_release_year\<close> is the
  result of \<open>pd.to_numeric(..., errors='coerce')\<close>, \<open>None\<close> being NaN (a blank or
  unparseable cell). Fractional and non-finite years are outside the model.
\<close>

record csv_row =
  csv_show_id :: string
  csv_type :: string
  csv_title :: string
  csv_director :: string
  csv_cast :: string
  csv_country :: string
  csv_date_added :: string
  csv_release_year :: "int option"
  csv_rating :: string
  csv_duration :: string
  csv_listed_in :: string
  csv_description :: string

text \<open>\<open>.fillna(0).astype(int)\<close> on the year column.\<close>

definition fillna0 :: "int option \<Rightarrow> int" where
  "fillna0 y = (case y of None \<Rightarrow> 0 | Some n \<Rightarrow> n)"

text \<open>\<open>row[c] if row[c] else None\<close> for a text cell.\<close>

definition or_none :: "string \<Rightarrow> string option" where
  "or_none cell = (if cell \<noteq> [] then Some cell else None)"

text \<open>The \<open>NetflixContent(...)\<close> built for a new row (lines 63 to 76).\<close>

definition new_content :: "csv_row \<Rightarrow> netflix_content" where
  "new_content row =
     \<lparr> show_id = csv_show_id row,
       type = or_none (csv_type row),
       title = or_none (csv_title row),
       director = or_none (csv_director row),
       cast = or_none (csv_cast row),
       country = or_none (csv_country row),
       date_added = or_none (csv_date_added row),
       release_year =
         (if fillna0 (csv_release_year row) > 0 then Some (fillna0 (csv_release_year row))
          else None),
       rating = or_none (csv_rating row),
       duration = or_none (csv_duration row),
       listed_in = or_none (csv_listed_in row),
       description = or_none (csv_description row) \<rparr>"

text \<open>
  A database session: the rows committed to the table, and the rows added in the open
  transaction. Whether a query first flushes the pending rows is a setting of the
  session factory in \<open>app.core.database\<close>; both settings are covered, by the field
  \<open>autoflush\<close>. What the database refuses to store for a reason other than a
  duplicate id (a value outside the range of its column, say) depends on the database
  behind the session; every such rule is covered, by the field \<open>refuses\<close>.
\<close>

record session =
  committed :: store
  pending :: store
  autoflush :: bool
  refuses :: "netflix_content \<Rightarrow> bool"

text \<open>
  Flushing writes the pending rows to the table, in the order they were added. A row the
  database refuses raises a data error; a row whose \<open>show_id\<close> is in the table already,
  or was written earlier in the same flush, violates \<open>unique=True\<close> and raises an
  integrity error. The first row that fails is the one whose error is raised.
\<close>

fun flush_rows :: "(netflix_content \<Rightarrow> bool) \<Rightarrow> store \<Rightarrow> store \<Rightarrow> import_error option" where
  "flush_rows refused table [] = None"
| "flush_rows refused table (c # cs) =
     (if refused c then Some DataError
      else if show_id c \<in> set (map show_id table) then Some IntegrityError
      else flush_rows refused (table @ [c]) cs)"

definition flush :: "session \<Rightarrow> import_error option" where
  "flush db = flush_rows (refuses db) (committed db) (pending db)"

text \<open>The rows a query of the session reads; with autoflush the pending rows are
  flushed first.\<close>

definition session_query :: "session \<Rightarrow> import_error + store" where
  "session_query db =
     (if autoflush db then
        (case flush db of Some e \<Rightarrow> Inl e | None \<Rightarrow> Inr (committed db @ pending db))
      else Inr (committed db))"

text \<open>\<open>db.commit()\<close>: the pending rows are flushed, then the transaction is committed.\<close>

definition commit :: "session \<Rightarrow> import_error + session" where
  "commit db =
     (case flush db of
        Some e \<Rightarrow> Inl e
      | None \<Rightarrow> Inr (db\<lparr>committed := committed db @ pending db, pending := []\<rparr>))"

definition rollback :: "session \<Rightarrow> session" where
  "rollback db = db\<lparr>pending := []\<rparr>"

text \<open>\<open>db.add(content)\<close>.\<close>

definition add :: "session \<Rightarrow> netflix_content \<Rightarrow> session" where
  "add db content = db\<lparr>pending := pending db @ [content]\<rparr>"

record counters =
  n_inserted :: int
  n_updated :: int
  n_skipped :: int

text \<open>
  The body of the inner loop (lines 55 to 80). An error carries the session it was
  raised in, for the \<open>except\<close> block.
\<close>

definition process_row ::
  "session \<times> counters \<Rightarrow> csv_row \<Rightarrow> (import_error \<times> session) + (session \<times> counters)" where
  "process_row st row =
     (case st of (db, n) \<Rightarrow>
        (case session_query db of
           Inl e \<Rightarrow> Inl (e, db)
         | Inr rows \<Rightarrow>
             (case find (\<lambda>c. show_id c = csv_show_id row) rows of
                None \<Rightarrow> Inr (add db (new_content row), n\<lparr>n_inserted := n_inserted n + 1\<rparr>)
              | Some existing \<Rightarrow> Inr (db, n\<lparr>n_skipped := n_skipped n + 1\<rparr>))))"

fun process_batch ::
  "session \<times> counters \<Rightarrow> csv_row list \<Rightarrow> (import_error \<times> session) + (session \<times> counters)" where
  "process_batch st [] = Inr st"
| "process_batch st (row # batch) =
     (case process_row st row of Inl err \<Rightarrow> Inl err | Inr st' \<Rightarrow> process_batch st' batch)"

text \<open>
  \<open>for start_idx in range(0, len(df), batch_size)\<close> with \<open>df.iloc[start_idx:end_idx]\<close>:
  the frame cut into runs of \<open>batch_size\<close> rows, the last one shorter.
\<close>

definition batch_size :: nat where
  "batch_size = 100"

function batches :: "nat \<Rightarrow> 'a list \<Rightarrow> 'a list list" where
  "batches n df = (if n = 0 \<or> df = [] then [] else take n df # batches n (drop n df))"
  by pat_completeness auto
termination
  by (relation "measure (\<lambda>(n, df). length df)") auto

declare batches.simps [simp del]

text \<open>The outer loop: each batch is processed, then committed.\<close>

fun import_batches ::
  "session \<times> counters \<Rightarrow> csv_row list list \<Rightarrow> (import_error \<times> session) + (session \<times> counters)" where
  "import_batches st [] = Inr st"
| "import_batches st (batch # rest) =
     (case process_batch st batch of
        Inl err \<Rightarrow> Inl err
      | Inr (db, n) \<Rightarrow>
          (case commit db of
             Inl e \<Rightarrow> Inl (e, db)
           | Inr db' \<Rightarrow> import_batches (db', n) rest))"

record load_result =
  status :: string
  records_processed :: int
  records_inserted :: int
  records_updated :: int
  records_skipped :: int
  statistics :: content_stats

text \<open>
  \<open>load_netflix_data_from_csv\<close>. The argument \<open>csv\<close> is what reading the file gave:
  \<open>Inl\<close> when \<open>pd.read_csv\<close> or a column conversion raised, the rows otherwise. The
  result pairs what the caller sees (\<open>Inl\<close>: the exception re-raised after
  \<open>db.rollback()\<close>) with the session afterwards.
\<close>

definition load_netflix_data_from_csv ::
  "session \<Rightarrow> import_error + csv_row list \<Rightarrow> (import_error + load_result) \<times> session" where
  "load_netflix_data_from_csv db csv =
     (case csv of
        Inl e \<Rightarrow> (Inl e, rollback db)
      | Inr df \<Rightarrow>
          (case import_batches (db, \<lparr>n_inserted = 0, n_updated = 0, n_skipped = 0\<rparr>)
                  (batches batch_size df) of
             Inl (e, db') \<Rightarrow> (Inl e, rollback db')
           | Inr (db', n) \<Rightarrow>
               (case session_query db' of
                  Inl e \<Rightarrow> (Inl e, rollback db')
                | Inr rows \<Rightarrow>
                    (Inr \<lparr> status = ''success'',
                           records_processed = int (length df),
                           records_inserted = n_inserted n,
                           records_updated = n_updated n,
                           records_skipped = n_skipped n,
                           statistics = get_statistics rows \<rparr>, db'))))"

section \<open>Notions of the specification and example data\<close>




text \<open>A table row with every nullable column NULL, from which the examples are built.\<close>

definition blank :: netflix_content where
  "blank = \<lparr> show_id = [], type = None, title = None, director = None, cast = None,
      country = None, date_added = None, release_year = None, rating = None,
      duration = None, listed_in = None, description = None \<rparr>"

text \<open>A request to \<open>GET /content/\<close> with no parameter given.\<close>

definition no_params :: content_params where
  "no_params = \<lparr> type_param = None, rating_param = None, release_year_param = None,
      country_param = None, category_param = None, title_param = None,
      director_param = None, cast_param = None, limit_param = None, offset_param = None \<rparr>"

text \<open>
  The search of the specification: \<open>q\<close> occurs in a field, letter case ignored, as a
  run of consecutive characters. A NULL field holds no text.
\<close>

fun starts_with :: "string \<Rightarrow> string \<Rightarrow> bool" where
  "starts_with [] s = True"
| "starts_with (c # q) [] = False"
| "starts_with (c # q) (d # s) = (c = d \<and> starts_with q s)"

fun is_substring :: "string \<Rightarrow> string \<Rightarrow> bool" where
  "is_substring q [] = starts_with q []"
| "is_substring q (c # s) = (starts_with q (c # s) \<or> is_substring q s)"

definition contains_ci :: "string \<Rightarrow> string option \<Rightarrow> bool" where
  "contains_ci q col = (case col of None \<Rightarrow> False | Some s \<Rightarrow> is_substring (lower q) (lower s))"

definition search_matches :: "string \<Rightarrow> netflix_content \<Rightarrow> bool" where
  "search_matches q r \<longleftrightarrow>
     contains_ci q (title r) \<or> contains_ci q (director r) \<or> contains_ci q (cast r)
     \<or> contains_ci q (description r)"

text \<open>The characters with a special meaning in a \<open>LIKE\<close> pattern.\<close>

definition wildcard :: "char \<Rightarrow> bool" where
  "wildcard c \<longleftrightarrow> c = CHR ''%'' \<or> c = CHR ''_'' \<or> c = CHR 0x5C"

text \<open>The invariant of the year column: NULL or positive.\<close>

definition year_ok :: "netflix_content \<Rightarrow> bool" where
  "year_ok c = (case release_year c of None \<Rightarrow> True | Some y \<Rightarrow> 0 < y)"

text \<open>A row of the import file with the given id and year, every other cell blank.\<close>

definition csv_blank :: "string \<Rightarrow> int option \<Rightarrow> csv_row" where
  "csv_blank sid y = \<lparr> csv_show_id = sid, csv_type = [], csv_title = [], csv_director = [],
      csv_cast = [], csv_country = [], csv_date_added = [], csv_release_year = y,
      csv_rating = [], csv_duration = [], csv_listed_in = [], csv_description = [] \<rparr>"

text \<open>A fresh session on a given table, of a database that refuses no row.\<close>

definition fresh :: "bool \<Rightarrow> store \<Rightarrow> session" where
  "fresh af table =
     \<lparr> committed = table, pending = [], autoflush = af, refuses = (\<lambda>c. False) \<rparr>"

text \<open>The error, if any, raised while one batch is processed and committed.\<close>

definition batch_error :: "session \<times> counters \<Rightarrow> csv_row list \<Rightarrow> import_error option" where
  "batch_error st batch =
     (case process_batch st batch of
        Inl (e, db) \<Rightarrow> Some e
      | Inr (db, n) \<Rightarrow> (case commit db of Inl e \<Rightarrow> Some e | Inr db' \<Rightarrow> None))"

text \<open>The rows a session holds, committed or pending.\<close>

definition all_rows :: "session \<Rightarrow> netflix_content set" where
  "all_rows db = set (committed db) \<union> set (pending db)"

text \<open>One hundred rows of an import file with the ids 00 to 99.\<close>

definition hundred_rows :: "csv_row list" where
  "hundred_rows =
     concat (map (\<lambda>a. map (\<lambda>b. csv_blank [a, b] None) ''0123456789'') ''0123456789'')"

section \<open>Facets\<close>













section \<open>Statistics: the category counts\<close>

























section \<open>Query layer: pagination\<close>


lemma validate_page_ok:
  "1 \<le> with_default 20 limit_p \<Longrightarrow> with_default 20 limit_p \<le> 100 \<Longrightarrow>
   0 \<le> with_default 0 offset_p \<Longrightarrow>
     validate_page limit_p offset_p = Inr (with_default 20 limit_p, with_default 0 offset_p)"
  by (simp add: validate_page_def)



section \<open>Query layer: the search parameter\<close>

text \<open>
  Claim C10. A search request without \<open>q\<close>, or with an empty \<open>q\<close>, is answered with a
  validation error whatever the table holds, and a search that returns rows had a \<open>q\<close>
  of at least one character: the search query is never built from an empty \<open>q\<close>.
\<close>

theorem search_requires_query:
  "search_content None limit_p offset_p db = Inl ValidationError
   \<and> search_content (Some []) limit_p offset_p db = Inl ValidationError
   \<and> (search_content q limit_p offset_p db = Inr rs \<longrightarrow> (\<exists>q'. q = Some q' \<and> 1 \<le> length q'))"
  by (cases q) (auto simp: search_content_def Suc_le_eq split: if_splits)

theorem search_requires_query_witness:
  "search_content (Some ''dark'') None None [blank\<lparr>title := Some ''Dark''\<rparr>]
     = Inr [blank\<lparr>title := Some ''Dark''\<rparr>]
   \<and> (\<exists>q'. Some ''dark'' = Some q' \<and> 1 \<le> length q')"
proof -
  have e: "search_content (Some ''dark'') None None [blank\<lparr>title := Some ''Dark''\<rparr>]
     = Inr [blank\<lparr>title := Some ''Dark''\<rparr>]"
    by code_simp
  show ?thesis
    using e search_requires_query [where q = "Some ''dark''" and limit_p = None
        and offset_p = None and db = "[blank\<lparr>title := Some ''Dark''\<rparr>]"
        and rs = "[blank\<lparr>title := Some ''Dark''\<rparr>]"]
    by blast
qed

section \<open>Query layer: search and filters\<close>

lemma of_char_lower:
  "(of_char (lower_char c) :: nat) =
     (if 65 \<le> (of_char c :: nat) \<and> (of_char c :: nat) \<le> 90 then of_char c + 32
      else of_char c)"
  by (simp add: lower_char_def less_eq_char_def)

lemma char_eq_code: "(c = d) = ((of_char c :: nat) = of_char d)"
  by simp

lemma wildcard_code: "wildcard c \<longleftrightarrow> (of_char c :: nat) \<in> {37, 95, 92}"
proof -
  have "(of_char CHR ''%'' :: nat) = 37" "(of_char CHR ''_'' :: nat) = 95"
    "(of_char CHR 0x5C :: nat) = 92"
    by simp_all
  then show ?thesis
    unfolding wildcard_def
    using char_eq_code [of c "CHR ''%''"] char_eq_code [of c "CHR ''_''"]
      char_eq_code [of c "CHR 0x5C"]
    by (simp del: of_char_eq_iff)
qed

text \<open>Case folding neither makes nor removes a wildcard.\<close>

lemma lower_char_wild: "wildcard (lower_char c) \<longleftrightarrow> wildcard c"
  unfolding wildcard_code of_char_lower by auto

lemma lower_wild: "(\<forall>c \<in> set (lower q). \<not> wildcard c) \<longleftrightarrow> (\<forall>c \<in> set q. \<not> wildcard c)"
  by (simp add: lower_def lower_char_wild)

lemma lower_percent: "lower_char CHR ''%'' = CHR ''%''"
  by (simp add: lower_char_def)

lemma lower_pattern: "lower (contains_pattern q) = contains_pattern (lower q)"
  by (simp add: lower_def contains_pattern_def lower_percent)

lemma like_any: "like_match [CHR ''%''] s"
  by (induction s) auto

lemma like_prefix:
  "\<forall>c \<in> set q. \<not> wildcard c \<Longrightarrow> like_match (q @ [CHR ''%'']) s = starts_with q s"
proof (induction q arbitrary: s)
  case Nil
  then show ?case by (simp add: like_any)
next
  case (Cons c q)
  then show ?case by (cases s) (auto simp: wildcard_def)
qed

lemma like_contains:
  "\<forall>c \<in> set q. \<not> wildcard c \<Longrightarrow> like_match (contains_pattern q) s = is_substring q s"
  unfolding contains_pattern_def
  by (induction s) (simp_all add: like_prefix)

lemma ilike_contains:
  "\<forall>c \<in> set q. \<not> wildcard c \<Longrightarrow>
     (ilike col (contains_pattern q) = Some True) = contains_ci q col"
  by (cases col) (simp_all add: ilike_def contains_ci_def lower_pattern like_contains lower_wild)

lemma sql_or_true: "(sql_or a b = Some True) = (a = Some True \<or> b = Some True)"
  by (cases "(a, b)" rule: sql_or.cases) auto

lemma search_query_eq:
  "\<forall>c \<in> set q. \<not> wildcard c \<Longrightarrow> search_query q db = filter (search_matches q) db"
  by (simp add: search_query_def query_filter_def sql_or_true ilike_contains search_matches_def
      cong: filter_cong)

text \<open>\<open>is_substring\<close> is the usual notion: the text is some prefix, then \<open>q\<close>, then some
  suffix.\<close>

lemma starts_with_iff: "starts_with q s \<longleftrightarrow> (\<exists>v. s = q @ v)"
  by (induction q s rule: starts_with.induct) auto

lemma is_substring_iff: "is_substring q s \<longleftrightarrow> (\<exists>u v. s = u @ q @ v)"
proof (induction s)
  case Nil
  then show ?case by (auto simp: starts_with_iff)
next
  case (Cons c s)
  note IH = Cons.IH
  show ?case
  proof
    assume "is_substring q (c # s)"
    then consider "starts_with q (c # s)" | "is_substring q s" by auto
    then show "\<exists>u v. c # s = u @ q @ v"
    proof cases
      case 1
      then obtain v where "c # s = [] @ q @ v" by (auto simp: starts_with_iff)
      then show ?thesis by blast
    next
      case 2
      then obtain u v where "s = u @ q @ v" using IH by blast
      then have "c # s = (c # u) @ q @ v" by simp
      then show ?thesis by blast
    qed
  next
    assume "\<exists>u v. c # s = u @ q @ v"
    then obtain u v where uv: "c # s = u @ q @ v" by blast
    show "is_substring q (c # s)"
    proof (cases "u = []")
      case True
      then have "starts_with q (c # s)" using uv by (auto simp: starts_with_iff)
      then show ?thesis by simp
    next
      case False
      then obtain u' where "u = c # u'" using uv by (cases u) auto
      then have "s = u' @ q @ v" using uv by simp
      then have "is_substring q s" using IH by blast
      then show ?thesis by simp
    qed
  qed
qed

lemma contains_ci_iff:
  "contains_ci q col \<longleftrightarrow> (\<exists>s u v. col = Some s \<and> lower s = u @ lower q @ v)"
  by (cases col) (simp_all add: contains_ci_def is_substring_iff)

text \<open>
  Claim C3, as the code has it. For a query string \<open>q\<close> of at least one character that
  holds none of the pattern characters \<open>%\<close>, \<open>_\<close> and backslash, and with limit and
  offset within their bounds, the search returns the page of exactly those rows, in table
  order, in which \<open>q\<close> occurs, letter case ignored, in the title, the director, the cast
  or the description; a NULL field matches nothing.
\<close>

theorem search_is_substring_match:
  assumes "\<forall>c \<in> set q. \<not> wildcard c" and "q \<noteq> []"
    and "1 \<le> with_default 20 limit_p" and "with_default 20 limit_p \<le> 100"
    and "0 \<le> with_default 0 offset_p"
  shows "search_content (Some q) limit_p offset_p db =
           Inr (page (with_default 20 limit_p) (with_default 0 offset_p)
                  (filter (search_matches q) db))"
  using assms
  by (simp add: search_content_def Suc_le_eq validate_page_ok search_query_eq)

text \<open>The query \<open>DARK\<close> finds the row whose cast holds \<open>dark\<close>, not the other one.\<close>

theorem search_is_substring_match_witness:
  "search_content (Some ''DARK'') None None
     [blank\<lparr>title := Some ''abc''\<rparr>, blank\<lparr>cast := Some ''The dark''\<rparr>]
   = Inr [blank\<lparr>cast := Some ''The dark''\<rparr>]"
proof -
  have w: "\<forall>c \<in> set ''DARK''. \<not> wildcard c"
    by (simp add: wildcard_def)
  have f: "filter (search_matches ''DARK'')
             [blank\<lparr>title := Some ''abc''\<rparr>, blank\<lparr>cast := Some ''The dark''\<rparr>]
           = [blank\<lparr>cast := Some ''The dark''\<rparr>]"
    by code_simp
  have t: "search_content (Some ''DARK'') None None
      [blank\<lparr>title := Some ''abc''\<rparr>, blank\<lparr>cast := Some ''The dark''\<rparr>]
    = Inr (page (with_default 20 None) (with_default 0 None)
        (filter (search_matches ''DARK'')
           [blank\<lparr>title := Some ''abc''\<rparr>, blank\<lparr>cast := Some ''The dark''\<rparr>]))"
    by (rule search_is_substring_match [OF w]) (simp_all add: with_default_def)
  show ?thesis
    unfolding t f by (simp add: with_default_def page_def)
qed

text \<open>
  Claim C3 as stated fails: the query \<open>_\<close> returns a row titled \<open>abc\<close>, in none of
  whose fields an underscore occurs.
\<close>

theorem search_wildcard_counterexample:
  "search_content (Some ''_'') None None [blank\<lparr>title := Some ''abc''\<rparr>]
     = Inr [blank\<lparr>title := Some ''abc''\<rparr>]
   \<and> \<not> search_matches ''_'' (blank\<lparr>title := Some ''abc''\<rparr>)"
  by code_simp

lemma set_query_filter: "set (query_filter cond query) = {r \<in> set query. cond r = Some True}"
  by (simp add: query_filter_def)

text \<open>A release year other than 0 is applied as an exact match.\<close>

lemma release_year_filter_nonzero:
  assumes "release_year_param p = Some y" and "y \<noteq> 0" and "get_content p db = Inr rs"
    and "r \<in> set rs"
  shows "release_year r = Some y"
proof -
  let ?q3 = "filter_eq_int (release_year_param p) release_year
      (filter_eq_str (rating_param p) rating (filter_eq_str (type_param p) type db))"
  have sub: "set (filter_ilike a col query) \<subseteq> set query" for a col query
    by (auto simp: filter_ilike_def set_query_filter split: option.splits)
  have "set (content_query p db) \<subseteq> set ?q3"
    unfolding content_query_def Let_def
    using sub by (meson subset_trans)
  moreover have "set rs \<subseteq> set (content_query p db)"
    using assms(3) set_take_subset set_drop_subset
    by (fastforce simp: get_content_def page_def split: sum.splits)
  moreover have "\<forall>x \<in> set ?q3. release_year x = Some y"
    using assms(1,2) by (simp add: filter_eq_int_def set_query_filter sql_eq_def)
  ultimately show ?thesis using assms(4) by blast
qed

text \<open>
  Claim C5 at the release year 0. The guard \<open>if release_year:\<close> is false for 0, no filter
  is applied, and a row of the year 2020 is returned for the request
  \<open>release_year=0\<close>.
\<close>

theorem release_year_zero_not_applied:
  "get_content (no_params\<lparr>release_year_param := Some 0\<rparr>) [blank\<lparr>release_year := Some 2020\<rparr>]
     = Inr [blank\<lparr>release_year := Some 2020\<rparr>]"
  by (simp add: get_content_def validate_page_def with_default_def no_params_def page_def
      content_query_def filter_eq_str_def filter_eq_int_def filter_ilike_def)

section \<open>Bulk importer\<close>

subsection \<open>Flushing\<close>

text \<open>A flush succeeds exactly when the database refuses none of the pending rows and
  no \<open>show_id\<close> would occur twice in the table.\<close>

lemma flush_rows_None:
  "flush_rows refused table cs = None \<longleftrightarrow>
     (\<forall>c \<in> set cs. \<not> refused c) \<and> distinct (map show_id cs)
     \<and> set (map show_id cs) \<inter> set (map show_id table) = {}"
  by (induction cs arbitrary: table) auto

lemma flush_None:
  "flush db = None \<longleftrightarrow>
     (\<forall>c \<in> set (pending db). \<not> refuses db c) \<and> distinct (map show_id (pending db))
     \<and> set (map show_id (pending db)) \<inter> set (map show_id (committed db)) = {}"
  by (simp add: flush_def flush_rows_None)

subsection \<open>One row\<close>

lemma process_row_cases:
  assumes "process_row (db, n) row = res"
  shows "(\<exists>e. res = Inl (e, db) \<and> session_query db = Inl e)
       \<or> (\<exists>rows. session_query db = Inr rows \<and> find (\<lambda>c. show_id c = csv_show_id row) rows = None
             \<and> res = Inr (add db (new_content row), n\<lparr>n_inserted := n_inserted n + 1\<rparr>))
       \<or> (\<exists>rows. session_query db = Inr rows \<and> find (\<lambda>c. show_id c = csv_show_id row) rows \<noteq> None
             \<and> res = Inr (db, n\<lparr>n_skipped := n_skipped n + 1\<rparr>))"
  using assms
  by (auto simp: process_row_def split: sum.splits option.splits)

lemma session_query_subset: "session_query db = Inr rows \<Longrightarrow> set rows \<subseteq> all_rows db"
  by (auto simp: session_query_def all_rows_def split: if_splits option.splits)

lemma all_rows_add: "all_rows (add db c) = insert c (all_rows db)"
  by (auto simp: all_rows_def add_def)

lemma rollback_add: "rollback (add db c) = rollback db"
  by (simp add: rollback_def add_def)

lemma show_id_new_content: "show_id (new_content row) = csv_show_id row"
  by (simp add: new_content_def)

lemma process_row_Inr:
  assumes "process_row (db, n) row = Inr (db', n')"
  shows "rollback db' = rollback db"
    and "n_updated n' = n_updated n"
    and "csv_show_id row \<in> show_id ` all_rows db'"
    and "all_rows db' \<subseteq> insert (new_content row) (all_rows db)"
    and "all_rows db \<subseteq> all_rows db'"
proof -
  from process_row_cases [OF assms]
  consider (ins) "db' = add db (new_content row)" "n' = n\<lparr>n_inserted := n_inserted n + 1\<rparr>"
    | (skip) rows where "session_query db = Inr rows"
      "find (\<lambda>c. show_id c = csv_show_id row) rows \<noteq> None"
      "db' = db" "n' = n\<lparr>n_skipped := n_skipped n + 1\<rparr>"
    by auto
  then have "rollback db' = rollback db \<and> n_updated n' = n_updated n
     \<and> csv_show_id row \<in> show_id ` all_rows db'
     \<and> all_rows db' \<subseteq> insert (new_content row) (all_rows db)
     \<and> all_rows db \<subseteq> all_rows db'"
  proof cases
    case ins
    have "csv_show_id row \<in> show_id ` insert (new_content row) (all_rows db)"
      using show_id_new_content [of row] by (metis image_eqI insertI1)
    with ins show ?thesis
      by (simp add: rollback_add all_rows_add subset_insertI)
  next
    case skip
    then obtain c where "c \<in> set rows" "show_id c = csv_show_id row"
      by (auto simp: find_None_iff)
    moreover have "set rows \<subseteq> all_rows db"
      using skip(1) by (rule session_query_subset)
    ultimately have "csv_show_id row \<in> show_id ` all_rows db"
      by (metis image_eqI subsetD)
    with skip show ?thesis by (simp add: subset_insertI)
  qed
  then show "rollback db' = rollback db"
    and "n_updated n' = n_updated n"
    and "csv_show_id row \<in> show_id ` all_rows db'"
    and "all_rows db' \<subseteq> insert (new_content row) (all_rows db)"
    and "all_rows db \<subseteq> all_rows db'"
    by simp_all
qed

lemma process_row_Inl: "process_row (db, n) row = Inl (e, db') \<Longrightarrow> db' = db"
  using process_row_cases [of db n row "Inl (e, db')"] by auto

subsection \<open>One batch\<close>

lemma process_batch_Inr:
  assumes "process_batch (db, n) rows = Inr (db', n')"
  shows "rollback db' = rollback db"
    and "n_updated n' = n_updated n"
    and "csv_show_id ` set rows \<subseteq> show_id ` all_rows db'"
    and "all_rows db' \<subseteq> all_rows db \<union> new_content ` set rows"
    and "all_rows db \<subseteq> all_rows db'"
proof -
  have "rollback db' = rollback db \<and> n_updated n' = n_updated n
     \<and> csv_show_id ` set rows \<subseteq> show_id ` all_rows db'
     \<and> all_rows db' \<subseteq> all_rows db \<union> new_content ` set rows
     \<and> all_rows db \<subseteq> all_rows db'"
    using assms
  proof (induction rows arbitrary: db n)
    case Nil
    then show ?case by simp
  next
    case (Cons row rows)
    from Cons.prems obtain db1 n1 where
      r: "process_row (db, n) row = Inr (db1, n1)" and
      b: "process_batch (db1, n1) rows = Inr (db', n')"
      by (auto split: sum.splits)
    note r' = process_row_Inr [OF r]
    from Cons.IH [OF b] have
      i1: "rollback db' = rollback db1" and i2: "n_updated n' = n_updated n1" and
      i3: "csv_show_id ` set rows \<subseteq> show_id ` all_rows db'" and
      i4: "all_rows db' \<subseteq> all_rows db1 \<union> new_content ` set rows" and
      i5: "all_rows db1 \<subseteq> all_rows db'"
      by simp_all
    have a: "rollback db' = rollback db" using i1 r'(1) by simp
    have b: "n_updated n' = n_updated n" using i2 r'(2) by simp
    have "csv_show_id row \<in> show_id ` all_rows db'"
      using r'(3) i5 by blast
    then have c: "csv_show_id ` set (row # rows) \<subseteq> show_id ` all_rows db'"
      using i3 by simp
    have d: "all_rows db' \<subseteq> all_rows db \<union> new_content ` set (row # rows)"
      using i4 r'(4) by auto
    have e: "all_rows db \<subseteq> all_rows db'"
      using i5 r'(5) by blast
    from a b c d e show ?case by blast
  qed
  then show "rollback db' = rollback db"
    and "n_updated n' = n_updated n"
    and "csv_show_id ` set rows \<subseteq> show_id ` all_rows db'"
    and "all_rows db' \<subseteq> all_rows db \<union> new_content ` set rows"
    and "all_rows db \<subseteq> all_rows db'"
    by simp_all
qed

lemma process_batch_Inl:
  assumes "process_batch (db, n) rows = Inl (e, db')"
  shows "rollback db' = rollback db"
    and "all_rows db' \<subseteq> all_rows db \<union> new_content ` set rows"
proof -
  have "rollback db' = rollback db \<and> all_rows db' \<subseteq> all_rows db \<union> new_content ` set rows"
    using assms
  proof (induction rows arbitrary: db n)
    case Nil
    then show ?case by simp
  next
    case (Cons row rows)
    show ?case
    proof (cases "process_row (db, n) row")
      case (Inl err)
      with Cons.prems have "err = (e, db')" by simp
      with Inl have "db' = db" by (simp add: process_row_Inl)
      then show ?thesis by auto
    next
      case (Inr st)
      obtain db1 n1 where st: "st = (db1, n1)" by (cases st)
      with Inr Cons.prems have b: "process_batch (db1, n1) rows = Inl (e, db')" by simp
      note r' = process_row_Inr [OF Inr [unfolded st]]
      from Cons.IH [OF b] have
        i1: "rollback db' = rollback db1" and
        i2: "all_rows db' \<subseteq> all_rows db1 \<union> new_content ` set rows"
        by simp_all
      have "rollback db' = rollback db" using i1 r'(1) by simp
      moreover have "all_rows db' \<subseteq> all_rows db \<union> new_content ` set (row # rows)"
        using i2 r'(4) by auto
      ultimately show ?thesis by simp
    qed
  qed
  then show "rollback db' = rollback db"
    and "all_rows db' \<subseteq> all_rows db \<union> new_content ` set rows"
    by simp_all
qed

subsection \<open>Commit and the outer loop\<close>

lemma commit_Inr:
  assumes "commit db = Inr db'"
  shows "committed db' = committed db @ pending db" and "pending db' = []"
    and "autoflush db' = autoflush db" and "all_rows db' = all_rows db"
    and "refuses db' = refuses db"
  using assms by (auto simp: commit_def all_rows_def split: option.splits)

lemma rollback_idem: "pending db = [] \<Longrightarrow> rollback db = db"
  by (simp add: rollback_def)

lemma import_batches_Inr:
  assumes "import_batches (db, n) bs = Inr (db', n')"
  shows "n_updated n' = n_updated n"
    and "csv_show_id ` set (concat bs) \<subseteq> show_id ` all_rows db'"
    and "all_rows db' \<subseteq> all_rows db \<union> new_content ` set (concat bs)"
    and "all_rows db \<subseteq> all_rows db'"
    and "bs = [] \<or> pending db' = []"
proof -
  have "n_updated n' = n_updated n
     \<and> csv_show_id ` set (concat bs) \<subseteq> show_id ` all_rows db'
     \<and> all_rows db' \<subseteq> all_rows db \<union> new_content ` set (concat bs)
     \<and> all_rows db \<subseteq> all_rows db'
     \<and> (bs = [] \<or> pending db' = [])"
    using assms
  proof (induction bs arbitrary: db n)
    case Nil
    then show ?case by simp
  next
    case (Cons batch rest)
    from Cons.prems obtain db1 n1 db2 where
      b: "process_batch (db, n) batch = Inr (db1, n1)" and
      c: "commit db1 = Inr db2" and
      r: "import_batches (db2, n1) rest = Inr (db', n')"
      by (auto split: sum.splits)
    note b' = process_batch_Inr [OF b]
    note c' = commit_Inr [OF c]
    from Cons.IH [OF r] have
      i1: "n_updated n' = n_updated n1" and
      i2: "csv_show_id ` set (concat rest) \<subseteq> show_id ` all_rows db'" and
      i3: "all_rows db' \<subseteq> all_rows db2 \<union> new_content ` set (concat rest)" and
      i4: "all_rows db2 \<subseteq> all_rows db'" and
      i5: "rest = [] \<or> pending db' = []"
      by simp_all
    have p: "pending db' = []"
    proof (cases "rest = []")
      case True
      with r c'(2) show ?thesis by simp
    next
      case False
      with i5 show ?thesis by simp
    qed
    have s1: "all_rows db1 \<subseteq> all_rows db'" using i4 c'(4) by simp
    have "show_id ` all_rows db1 \<subseteq> show_id ` all_rows db'"
      using s1 by (rule image_mono)
    then have "csv_show_id ` set batch \<subseteq> show_id ` all_rows db'"
      using b'(3) by (rule subset_trans [rotated])
    then have g2: "csv_show_id ` set (concat (batch # rest)) \<subseteq> show_id ` all_rows db'"
      using i2 by (simp add: image_Un)
    have "all_rows db' \<subseteq> all_rows db1 \<union> new_content ` set (concat rest)"
      using i3 c'(4) by simp
    then have g3: "all_rows db' \<subseteq> all_rows db \<union> new_content ` set (concat (batch # rest))"
      using b'(4) by (auto simp: image_Un)
    have g4: "all_rows db \<subseteq> all_rows db'"
      using b'(5) s1 by (rule subset_trans)
    have g1: "n_updated n' = n_updated n" using i1 b'(2) by simp
    from g1 g2 g3 g4 p show ?case by blast
  qed
  then show "n_updated n' = n_updated n"
    and "csv_show_id ` set (concat bs) \<subseteq> show_id ` all_rows db'"
    and "all_rows db' \<subseteq> all_rows db \<union> new_content ` set (concat bs)"
    and "all_rows db \<subseteq> all_rows db'"
    and "bs = [] \<or> pending db' = []"
    by simp_all
qed

lemma import_batches_Inl:
  assumes "import_batches (db, n) bs = Inl (e, dbe)"
  shows "\<exists>k dbk nk. k < length bs \<and> import_batches (db, n) (take k bs) = Inr (dbk, nk)
           \<and> rollback dbe = rollback dbk
           \<and> all_rows dbe \<subseteq> all_rows db \<union> new_content ` set (concat bs)"
  using assms
proof (induction bs arbitrary: db n)
  case Nil
  then show ?case by simp
next
  case (Cons batch rest)
  have zero: "\<exists>k dbk nk. k < length (batch # rest)
           \<and> import_batches (db, n) (take k (batch # rest)) = Inr (dbk, nk)
           \<and> rollback dbe = rollback dbk
           \<and> all_rows dbe \<subseteq> all_rows db \<union> new_content ` set (concat (batch # rest))"
    if "rollback dbe = rollback db" and "all_rows dbe \<subseteq> all_rows db \<union> new_content ` set batch"
  proof -
    have "0 < length (batch # rest)" by simp
    moreover have "import_batches (db, n) (take 0 (batch # rest)) = Inr (db, n)" by simp
    moreover have "all_rows dbe \<subseteq> all_rows db \<union> new_content ` set (concat (batch # rest))"
      using that(2) by (auto simp: image_Un)
    ultimately show ?thesis using that(1) by blast
  qed
  show ?case
  proof (cases "process_batch (db, n) batch")
    case (Inl err)
    with Cons.prems have "process_batch (db, n) batch = Inl (e, dbe)" by simp
    from process_batch_Inl [OF this] show ?thesis by (rule zero)
  next
    case (Inr st)
    obtain db1 n1 where st: "st = (db1, n1)" by (cases st)
    note b = Inr [unfolded st]
    note b' = process_batch_Inr [OF b]
    show ?thesis
    proof (cases "commit db1")
      case (Inl e')
      with b Cons.prems have "dbe = db1" by simp
      with b'(1) b'(4) show ?thesis by (intro zero) simp_all
    next
      case (Inr db2)
      note c' = commit_Inr [OF Inr]
      from b Inr Cons.prems have r: "import_batches (db2, n1) rest = Inl (e, dbe)" by simp
      from Cons.IH [OF r] obtain k dbk nk where
        k1: "k < length rest" and
        k2: "import_batches (db2, n1) (take k rest) = Inr (dbk, nk)" and
        k3: "rollback dbe = rollback dbk" and
        k4: "all_rows dbe \<subseteq> all_rows db2 \<union> new_content ` set (concat rest)"
        by blast
      have a1: "import_batches (db, n) (take (Suc k) (batch # rest)) = Inr (dbk, nk)"
        using b Inr k2 by simp
      have a2: "Suc k < length (batch # rest)" using k1 by simp
      have "all_rows dbe \<subseteq> all_rows db1 \<union> new_content ` set (concat rest)"
        using k4 c'(4) by simp
      then have a3: "all_rows dbe \<subseteq> all_rows db \<union> new_content ` set (concat (batch # rest))"
        using b'(4) by (auto simp: image_Un)
      from a1 a2 a3 k3 show ?thesis by blast
    qed
  qed
qed

subsection \<open>Cutting the frame into batches\<close>

lemma batches_Nil: "batches n [] = []"
  by (simp add: batches.simps)

lemma batches_Cons:
  "0 < n \<Longrightarrow> df \<noteq> [] \<Longrightarrow> batches n df = take n df # batches n (drop n df)"
  by (subst batches.simps) simp

lemma concat_batches: "0 < n \<Longrightarrow> concat (batches n df) = df"
proof (induction n df rule: batches.induct)
  case (1 n df)
  show ?case
  proof (cases "df = []")
    case True
    then show ?thesis by (simp add: batches_Nil)
  next
    case False
    have "concat (batches n df) = take n df @ concat (batches n (drop n df))"
      using "1.prems" False by (simp add: batches_Cons [of n df])
    also have "concat (batches n (drop n df)) = drop n df"
      using "1.IH" "1.prems" False by simp
    finally show ?thesis by simp
  qed
qed

lemma batches_eq_Nil: "0 < n \<Longrightarrow> batches n df = [] \<longleftrightarrow> df = []"
  by (cases "df = []") (simp_all add: batches_Nil batches_Cons [of n df])

lemma batches_take: "0 < n \<Longrightarrow> batches n (take (k * n) df) = take k (batches n df)"
proof (induction k arbitrary: df)
  case 0
  then show ?case by (simp add: batches_Nil)
next
  case (Suc k)
  show ?case
  proof (cases "df = []")
    case True
    then show ?thesis by (simp add: batches_Nil)
  next
    case False
    with Suc.prems have ne: "take (Suc k * n) df \<noteq> []" by simp
    have "batches n (take (Suc k * n) df)
        = take n (take (Suc k * n) df) # batches n (drop n (take (Suc k * n) df))"
      using Suc.prems ne by (rule batches_Cons)
    also have "take n (take (Suc k * n) df) = take n df" by (simp add: min_def)
    also have "drop n (take (Suc k * n) df) = take (k * n) (drop n df)"
      by (simp add: drop_take)
    also have "batches n (take (k * n) (drop n df)) = take k (batches n (drop n df))"
      using Suc.prems by (rule Suc.IH)
    also have "take n df # take k (batches n (drop n df)) = take (Suc k) (batches n df)"
      using Suc.prems False by (simp add: batches_Cons [of n df])
    finally show ?thesis .
  qed
qed

lemma batches_length: "0 < n \<Longrightarrow> k < length (batches n df) \<Longrightarrow> k * n < length df"
proof (induction k arbitrary: df)
  case 0
  then show ?case by (cases "df = []") (simp_all add: batches_Nil)
next
  case (Suc k)
  then have ne: "df \<noteq> []" by (cases "df = []") (simp_all add: batches_Nil)
  with Suc.prems have "k < length (batches n (drop n df))"
    by (simp add: batches_Cons [of n df])
  with Suc.IH Suc.prems(1) have "k * n < length (drop n df)" by blast
  then show ?case by simp
qed

subsection \<open>What a run leaves of the session\<close>

lemma rollback_settings:
  assumes "rollback a = rollback b"
  shows "committed a = committed b" and "autoflush a = autoflush b" and "refuses a = refuses b"
proof -
  have "committed (rollback a) = committed a" "autoflush (rollback a) = autoflush a"
    "refuses (rollback a) = refuses a" "committed (rollback b) = committed b"
    "autoflush (rollback b) = autoflush b" "refuses (rollback b) = refuses b"
    by (simp_all add: rollback_def)
  with assms show "committed a = committed b" and "autoflush a = autoflush b"
    and "refuses a = refuses b"
    by simp_all
qed

lemma process_row_prefix:
  assumes "process_row (db, n) row = Inr (db', n')"
  shows "\<exists>new. pending db' = pending db @ new \<and> set new \<subseteq> {new_content row}"
proof -
  from process_row_cases [OF assms]
  have "db' = add db (new_content row) \<or> db' = db" by auto
  then show ?thesis
  proof
    assume "db' = add db (new_content row)"
    then have "pending db' = pending db @ [new_content row] \<and>
        set [new_content row] \<subseteq> {new_content row}"
      by (simp add: add_def)
    then show ?thesis by (rule exI)
  next
    assume "db' = db"
    then have "pending db' = pending db @ [] \<and> set [] \<subseteq> {new_content row}"
      by simp
    then show ?thesis by (rule exI)
  qed
qed

lemma process_batch_prefix:
  assumes "process_batch (db, n) rows = Inr (db', n')"
  shows "\<exists>new. pending db' = pending db @ new \<and> set new \<subseteq> new_content ` set rows"
  using assms
proof (induction rows arbitrary: db n)
  case Nil
  then show ?case by simp
next
  case (Cons row rows)
  from Cons.prems obtain db1 n1 where
    r: "process_row (db, n) row = Inr (db1, n1)" and
    b: "process_batch (db1, n1) rows = Inr (db', n')"
    by (auto split: sum.splits)
  from process_row_prefix [OF r] obtain new1 where
    n1: "pending db1 = pending db @ new1" "set new1 \<subseteq> {new_content row}" by blast
  from Cons.IH [OF b] obtain new2 where
    n2: "pending db' = pending db1 @ new2" "set new2 \<subseteq> new_content ` set rows" by blast
  have "pending db' = pending db @ (new1 @ new2)" using n1(1) n2(1) by simp
  moreover have "set (new1 @ new2) \<subseteq> new_content ` set (row # rows)"
    using n1(2) n2(2) by auto
  ultimately show ?case by blast
qed

lemma import_batches_prefix:
  assumes "import_batches (db, n) bs = Inr (db', n')"
  shows "\<exists>new. committed db' @ pending db' = committed db @ pending db @ new
           \<and> set new \<subseteq> new_content ` set (concat bs)"
  using assms
proof (induction bs arbitrary: db n)
  case Nil
  then show ?case by simp
next
  case (Cons batch rest)
  from Cons.prems obtain db1 n1 db2 where
    b: "process_batch (db, n) batch = Inr (db1, n1)" and
    c: "commit db1 = Inr db2" and
    r: "import_batches (db2, n1) rest = Inr (db', n')"
    by (auto split: sum.splits)
  from process_batch_prefix [OF b] obtain new1 where
    n1: "pending db1 = pending db @ new1" "set new1 \<subseteq> new_content ` set batch" by blast
  have c1: "committed db1 = committed db"
    using process_batch_Inr(1) [OF b] by (rule rollback_settings)
  note c' = commit_Inr [OF c]
  from Cons.IH [OF r] obtain new2 where
    n2: "committed db' @ pending db' = committed db2 @ pending db2 @ new2"
      "set new2 \<subseteq> new_content ` set (concat rest)" by blast
  have "committed db' @ pending db' = committed db @ pending db @ (new1 @ new2)"
    using n2(1) c'(1) c'(2) c1 n1(1) by simp
  moreover have "set (new1 @ new2) \<subseteq> new_content ` set (concat (batch # rest))"
    using n1(2) n2(2) by (auto simp: image_Un)
  ultimately show ?case by blast
qed

lemma import_batches_settings:
  assumes "import_batches (db, n) bs = Inr (db', n')"
  shows "autoflush db' = autoflush db" and "refuses db' = refuses db"
proof -
  have "autoflush db' = autoflush db \<and> refuses db' = refuses db"
    using assms
  proof (induction bs arbitrary: db n)
    case Nil
    then show ?case by simp
  next
    case (Cons batch rest)
    from Cons.prems obtain db1 n1 db2 where
      b: "process_batch (db, n) batch = Inr (db1, n1)" and
      c: "commit db1 = Inr db2" and
      r: "import_batches (db2, n1) rest = Inr (db', n')"
      by (auto split: sum.splits)
    note b' = rollback_settings [OF process_batch_Inr(1) [OF b]]
    note c' = commit_Inr [OF c]
    from Cons.IH [OF r] b'(2) b'(3) c'(3) c'(5) show ?case by simp
  qed
  then show "autoflush db' = autoflush db" and "refuses db' = refuses db" by simp_all
qed

subsection \<open>Where a run fails\<close>

lemma import_batches_append:
  "import_batches st (xs @ ys) =
     (case import_batches st xs of Inl err \<Rightarrow> Inl err | Inr st' \<Rightarrow> import_batches st' ys)"
proof (induction xs arbitrary: st)
  case Nil
  then show ?case by simp
next
  case (Cons batch xs)
  then show ?case by (simp split: sum.splits prod.splits)
qed

lemma import_batches_first:
  assumes "import_batches st (batch # rest) = Inl (e, dbe)"
  shows "batch_error st batch = Some e \<or>
     (\<exists>st'. import_batches st [batch] = Inr st' \<and> import_batches st' rest = Inl (e, dbe))"
proof (cases "process_batch st batch")
  case (Inl err)
  with assms have "err = (e, dbe)" by simp
  with Inl show ?thesis by (simp add: batch_error_def)
next
  case (Inr st1)
  obtain db1 n1 where st1: "st1 = (db1, n1)" by (cases st1)
  show ?thesis
  proof (cases "commit db1")
    case (Inl e')
    with Inr st1 assms have "e' = e" by simp
    with Inl Inr st1 show ?thesis by (simp add: batch_error_def)
  next
    case c: (Inr db2)
    with Inr st1 assms have "import_batches (db2, n1) rest = Inl (e, dbe)" by simp
    moreover have "import_batches st [batch] = Inr (db2, n1)"
      using Inr st1 c by simp
    ultimately show ?thesis by blast
  qed
qed

lemma batch_error_fails:
  assumes "batch_error (db, n) batch = Some e"
  shows "\<exists>dbe. import_batches (db, n) (batch # rest) = Inl (e, dbe) \<and> rollback dbe = rollback db"
proof (cases "process_batch (db, n) batch")
  case (Inl err)
  obtain e' dbe where err: "err = (e', dbe)" by (cases err)
  with Inl assms have "e' = e" by (simp add: batch_error_def)
  with Inl err have "import_batches (db, n) (batch # rest) = Inl (e, dbe)" by simp
  moreover have "rollback dbe = rollback db"
    using Inl err by (intro process_batch_Inl(1)) simp
  ultimately show ?thesis by blast
next
  case (Inr st)
  obtain db1 n1 where st: "st = (db1, n1)" by (cases st)
  with Inr assms have "commit db1 = Inl e"
    by (simp add: batch_error_def split: sum.splits)
  with Inr st have "import_batches (db, n) (batch # rest) = Inl (e, db1)" by simp
  moreover have "rollback db1 = rollback db"
    using Inr st by (intro process_batch_Inr(1)) simp
  ultimately show ?thesis by blast
qed

lemma import_batches_fails:
  assumes "k < length bs" and "import_batches st (take k bs) = Inr (dbk, nk)"
    and "batch_error (dbk, nk) (bs ! k) = Some e"
  shows "\<exists>dbe. import_batches st bs = Inl (e, dbe) \<and> rollback dbe = rollback dbk"
proof -
  from batch_error_fails [OF assms(3), of "drop (Suc k) bs"] obtain dbe where
    f: "import_batches (dbk, nk) (bs ! k # drop (Suc k) bs) = Inl (e, dbe)"
      "rollback dbe = rollback dbk"
    by blast
  have "import_batches st bs = import_batches st (take k bs @ bs ! k # drop (Suc k) bs)"
    by (simp add: id_take_nth_drop [OF assms(1), symmetric])
  also have "\<dots> = Inl (e, dbe)"
    unfolding import_batches_append using assms(2) f(1) by simp
  finally show ?thesis using f(2) by blast
qed

lemma import_batches_Inl_at:
  assumes "import_batches (db, n) bs = Inl (e, dbe)"
  shows "\<exists>k dbk nk. k < length bs \<and> import_batches (db, n) (take k bs) = Inr (dbk, nk)
           \<and> batch_error (dbk, nk) (bs ! k) = Some e
           \<and> rollback dbe = rollback dbk"
  using assms
proof (induction bs arbitrary: db n)
  case Nil
  then show ?case by simp
next
  case (Cons batch rest)
  from import_batches_first [OF Cons.prems]
  consider (here) "batch_error (db, n) batch = Some e"
    | (later) st' where "import_batches (db, n) [batch] = Inr st'"
        "import_batches st' rest = Inl (e, dbe)"
    by blast
  then show ?case
  proof cases
    case here
    from batch_error_fails [OF here, of rest] Cons.prems
    have "rollback dbe = rollback db" by simp
    moreover have "import_batches (db, n) (take 0 (batch # rest)) = Inr (db, n)" by simp
    moreover have "batch_error (db, n) ((batch # rest) ! 0) = Some e" using here by simp
    moreover have "0 < length (batch # rest)" by simp
    ultimately show ?thesis by blast
  next
    case later
    obtain db2 n2 where st': "st' = (db2, n2)" by (cases st')
    from Cons.IH [OF later(2) [unfolded st']] obtain k dbk nk where
      k1: "k < length rest" and
      k2: "import_batches (db2, n2) (take k rest) = Inr (dbk, nk)" and
      k3: "batch_error (dbk, nk) (rest ! k) = Some e" and
      k4: "rollback dbe = rollback dbk"
      by blast
    have "import_batches (db, n) ([batch] @ take k rest) = Inr (dbk, nk)"
      unfolding import_batches_append using later(1) st' k2 by simp
    then have a1: "import_batches (db, n) (take (Suc k) (batch # rest)) = Inr (dbk, nk)"
      by simp
    have a2: "Suc k < length (batch # rest)" using k1 by simp
    have a3: "batch_error (dbk, nk) ((batch # rest) ! Suc k) = Some e" using k3 by simp
    from a1 a2 a3 k4 show ?thesis by blast
  qed
qed

subsection \<open>The whole run\<close>

lemma batch_size_pos: "0 < batch_size"
  by (simp add: batch_size_def)

lemma session_query_fresh: "pending db = [] \<Longrightarrow> session_query db = Inr (committed db)"
  by (simp add: session_query_def flush_def)

lemma load_success:
  assumes "load_netflix_data_from_csv db csv = (Inr r, db')"
  shows "\<exists>df n rows. csv = Inr df
           \<and> import_batches (db, \<lparr>n_inserted = 0, n_updated = 0, n_skipped = 0\<rparr>)
                (batches batch_size df) = Inr (db', n)
           \<and> session_query db' = Inr rows
           \<and> r = \<lparr> status = ''success'', records_processed = int (length df),
                  records_inserted = n_inserted n, records_updated = n_updated n,
                  records_skipped = n_skipped n, statistics = get_statistics rows \<rparr>"
  using assms
  by (auto simp: load_netflix_data_from_csv_def split: sum.splits prod.splits)

lemma load_failure:
  assumes "load_netflix_data_from_csv db csv = (Inl e, db')"
  shows "(csv = Inl e \<and> db' = rollback db)
     \<or> (\<exists>df dbe. csv = Inr df
           \<and> import_batches (db, \<lparr>n_inserted = 0, n_updated = 0, n_skipped = 0\<rparr>)
                (batches batch_size df) = Inl (e, dbe)
           \<and> db' = rollback dbe)
     \<or> (\<exists>df db1 n. csv = Inr df
           \<and> import_batches (db, \<lparr>n_inserted = 0, n_updated = 0, n_skipped = 0\<rparr>)
                (batches batch_size df) = Inr (db1, n)
           \<and> session_query db1 = Inl e \<and> db' = rollback db1)"
  using assms
  by (auto simp: load_netflix_data_from_csv_def split: sum.splits prod.splits)

lemma load_of_import:
  assumes "import_batches (db, \<lparr>n_inserted = 0, n_updated = 0, n_skipped = 0\<rparr>)
                (batches batch_size df) = Inr (db', n)"
    and "session_query db' = Inr rows"
  shows "load_netflix_data_from_csv db (Inr df) =
     (Inr \<lparr> status = ''success'', records_processed = int (length df),
                  records_inserted = n_inserted n, records_updated = n_updated n,
                  records_skipped = n_skipped n, statistics = get_statistics rows \<rparr>, db')"
  using assms by (simp add: load_netflix_data_from_csv_def)

lemma year_ok_new_content: "year_ok (new_content row)"
  by (simp add: year_ok_def new_content_def)

lemma all_rows_rollback: "all_rows (rollback db) \<subseteq> all_rows db"
  by (auto simp: all_rows_def rollback_def)

lemma load_rows:
  assumes "load_netflix_data_from_csv db csv = (res, db')"
  shows "\<exists>df. all_rows db' \<subseteq> all_rows db \<union> new_content ` set df"
proof (cases res)
  case (Inr r)
  from load_success [OF assms [unfolded Inr]] obtain df n where
    "import_batches (db, \<lparr>n_inserted = 0, n_updated = 0, n_skipped = 0\<rparr>)
       (batches batch_size df) = Inr (db', n)"
    by blast
  from import_batches_Inr(3) [OF this] show ?thesis by blast
next
  case (Inl e)
  from load_failure [OF assms [unfolded Inl]]
  consider (read) "db' = rollback db"
    | (store) df dbe where
      "import_batches (db, \<lparr>n_inserted = 0, n_updated = 0, n_skipped = 0\<rparr>)
         (batches batch_size df) = Inl (e, dbe)" "db' = rollback dbe"
    | (stats) df db1 n where
      "import_batches (db, \<lparr>n_inserted = 0, n_updated = 0, n_skipped = 0\<rparr>)
         (batches batch_size df) = Inr (db1, n)" "db' = rollback db1"
    by blast
  then show ?thesis
  proof cases
    case read
    then have "all_rows db' \<subseteq> all_rows db \<union> new_content ` set []"
      using all_rows_rollback [of db] by simp
    then show ?thesis by blast
  next
    case store
    from import_batches_Inl [OF store(1)]
    have "all_rows dbe \<subseteq> all_rows db \<union> new_content ` set (concat (batches batch_size df))"
      by blast
    then have "all_rows db' \<subseteq> all_rows db \<union> new_content ` set (concat (batches batch_size df))"
      using all_rows_rollback [of dbe] store(2) by blast
    then show ?thesis by blast
  next
    case stats
    from import_batches_Inr(3) [OF stats(1)]
    have "all_rows db' \<subseteq> all_rows db \<union> new_content ` set (concat (batches batch_size df))"
      using all_rows_rollback [of db1] stats(2) by blast
    then show ?thesis by blast
  qed
qed

lemma load_settings:
  assumes "load_netflix_data_from_csv db csv = (res, db')"
  shows "autoflush db' = autoflush db" and "refuses db' = refuses db"
proof -
  let ?c0 = "\<lparr>n_inserted = 0, n_updated = 0, n_skipped = 0\<rparr>"
  have r: "autoflush (rollback d) = autoflush d \<and> refuses (rollback d) = refuses d" for d
    by (simp add: rollback_def)
  have "autoflush db' = autoflush db \<and> refuses db' = refuses db"
  proof (cases res)
    case (Inr result)
    from load_success [OF assms [unfolded Inr]] obtain df n where
      "import_batches (db, ?c0) (batches batch_size df) = Inr (db', n)"
      by blast
    from import_batches_settings [OF this] show ?thesis by simp
  next
    case (Inl e)
    from load_failure [OF assms [unfolded Inl]]
    consider (read) "db' = rollback db"
      | (store) df dbe where
        "import_batches (db, ?c0) (batches batch_size df) = Inl (e, dbe)" "db' = rollback dbe"
      | (stats) df db1 n where
        "import_batches (db, ?c0) (batches batch_size df) = Inr (db1, n)" "db' = rollback db1"
      by blast
    then show ?thesis
    proof cases
      case read
      with r [of db] show ?thesis by simp
    next
      case store
      from import_batches_Inl_at [OF store(1)] obtain k dbk nk where
        k: "import_batches (db, ?c0) (take k (batches batch_size df)) = Inr (dbk, nk)"
          "rollback dbe = rollback dbk"
        by blast
      from import_batches_settings [OF k(1)] rollback_settings(2,3) [OF k(2)] r [of dbe] store(2)
      show ?thesis by simp
    next
      case stats
      from import_batches_settings [OF stats(1)] r [of db1] stats(2)
      show ?thesis by simp
    qed
  qed
  then show "autoflush db' = autoflush db" and "refuses db' = refuses db" by simp_all
qed

text \<open>A run is known by its result, the table it leaves and what is left pending.\<close>

lemma load_eqI:
  assumes "fst (load_netflix_data_from_csv db csv) = res"
    and "committed (snd (load_netflix_data_from_csv db csv)) = table"
    and "pending (snd (load_netflix_data_from_csv db csv)) = []"
  shows "load_netflix_data_from_csv db csv = (res, db\<lparr>committed := table, pending := []\<rparr>)"
proof -
  obtain res' db' where run: "load_netflix_data_from_csv db csv = (res', db')"
    by (cases "load_netflix_data_from_csv db csv")
  from load_settings [OF run] assms run
  have "res' = res" "committed db' = table" "pending db' = []"
    "autoflush db' = autoflush db" "refuses db' = refuses db"
    by simp_all
  then have "db' = db\<lparr>committed := table, pending := []\<rparr>"
    by (cases db', cases db) simp
  with run \<open>res' = res\<close> show ?thesis by simp
qed

lemma fresh_table: "(fresh af t0)\<lparr>committed := table, pending := []\<rparr> = fresh af table"
  by (simp add: fresh_def)

text \<open>
  Claim C6. The year stored for an imported row is the year of the file when that is a
  positive number, and NULL when the cell is blank or unparseable (NaN), zero or
  negative. If every row the session holds before an import has a NULL or positive
  year, so has every row it holds afterwards, whether the run succeeds or fails; these
  are in particular the rows of the table.
\<close>

theorem release_year_positive_or_null:
  "release_year (new_content row) =
     (case csv_release_year row of None \<Rightarrow> None | Some y \<Rightarrow> if 0 < y then Some y else None)
   \<and> ((\<forall>c \<in> all_rows db. year_ok c) \<longrightarrow> load_netflix_data_from_csv db csv = (res, db') \<longrightarrow>
        (\<forall>c \<in> all_rows db'. year_ok c) \<and> (\<forall>c \<in> set (committed db'). year_ok c))"
proof -
  have a: "release_year (new_content row) =
     (case csv_release_year row of None \<Rightarrow> None | Some y \<Rightarrow> if 0 < y then Some y else None)"
    by (simp add: new_content_def fillna0_def split: option.splits)
  have b: "(\<forall>c \<in> all_rows db'. year_ok c) \<and> (\<forall>c \<in> set (committed db'). year_ok c)"
    if inv: "\<forall>c \<in> all_rows db. year_ok c"
      and run: "load_netflix_data_from_csv db csv = (res, db')"
  proof -
    from load_rows [OF run] obtain df where
      "all_rows db' \<subseteq> all_rows db \<union> new_content ` set df" by blast
    then have "\<forall>c \<in> all_rows db'. year_ok c"
      using inv year_ok_new_content by blast
    moreover have "set (committed db') \<subseteq> all_rows db'"
      by (simp add: all_rows_def)
    ultimately show ?thesis by blast
  qed
  from a b show ?thesis by blast
qed

text \<open>A table with one row of 1999, and a file with the years 2020, blank, 0 and -5.\<close>

theorem release_year_positive_or_null_witness:
  "year_ok (blank\<lparr>release_year := Some 1999\<rparr>)
   \<and> list_all year_ok (committed (snd (load_netflix_data_from_csv
         (fresh False [blank\<lparr>release_year := Some 1999\<rparr>])
         (Inr [csv_blank ''s1'' (Some 2020), csv_blank ''s2'' None, csv_blank ''s3'' (Some 0),
               csv_blank ''s4'' (Some (- 5))]))))
   \<and> map release_year (committed (snd (load_netflix_data_from_csv
         (fresh False [blank\<lparr>release_year := Some 1999\<rparr>])
         (Inr [csv_blank ''s1'' (Some 2020), csv_blank ''s2'' None, csv_blank ''s3'' (Some 0),
               csv_blank ''s4'' (Some (- 5))]))))
       = [Some 1999, Some 2020, None, None, None]"
proof -
  let ?db = "fresh False [blank\<lparr>release_year := Some 1999\<rparr>]"
  let ?csv = "Inr [csv_blank ''s1'' (Some 2020), csv_blank ''s2'' None, csv_blank ''s3'' (Some 0),
               csv_blank ''s4'' (Some (- 5))]"
  have y: "year_ok (blank\<lparr>release_year := Some 1999\<rparr>)"
    by (simp add: year_ok_def)
  then have inv: "\<forall>c \<in> all_rows ?db. year_ok c"
    by (simp add: all_rows_def fresh_def)
  obtain res db' where run: "load_netflix_data_from_csv ?db ?csv = (res, db')"
    by (cases "load_netflix_data_from_csv ?db ?csv")
  have "\<forall>c \<in> set (committed db'). year_ok c"
    using release_year_positive_or_null [where db = ?db and csv = ?csv and res = res
        and db' = db'] inv run by blast
  then have l: "list_all year_ok (committed (snd (load_netflix_data_from_csv ?db ?csv)))"
    using run by (simp add: list_all_iff)
  have m: "map release_year (committed (snd (load_netflix_data_from_csv ?db ?csv)))
       = [Some 1999, Some 2020, None, None, None]"
    by code_simp
  from y l m show ?thesis by blast
qed

lemma three_rows_first_run:
  "load_netflix_data_from_csv (fresh False [])
     (Inr [csv_blank ''s1'' (Some 2020), csv_blank ''s2'' None, csv_blank ''s3'' (Some 0)])
   = (Inr \<lparr> status = ''success'', records_processed = 3, records_inserted = 3,
            records_updated = 0, records_skipped = 0,
            statistics = \<lparr> total_content = 3, movies = 0, tv_shows = 0, by_rating = [],
               by_category = [] \<rparr> \<rparr>,
      fresh False [blank\<lparr>show_id := ''s1'', release_year := Some 2020\<rparr>,
                   blank\<lparr>show_id := ''s2''\<rparr>, blank\<lparr>show_id := ''s3''\<rparr>])"
proof -
  have "load_netflix_data_from_csv (fresh False [])
     (Inr [csv_blank ''s1'' (Some 2020), csv_blank ''s2'' None, csv_blank ''s3'' (Some 0)])
   = (Inr \<lparr> status = ''success'', records_processed = 3, records_inserted = 3,
            records_updated = 0, records_skipped = 0,
            statistics = \<lparr> total_content = 3, movies = 0, tv_shows = 0, by_rating = [],
               by_category = [] \<rparr> \<rparr>,
      (fresh False [])\<lparr>committed := [blank\<lparr>show_id := ''s1'', release_year := Some 2020\<rparr>,
                   blank\<lparr>show_id := ''s2''\<rparr>, blank\<lparr>show_id := ''s3''\<rparr>],
        pending := []\<rparr>)"
    by (rule load_eqI; code_simp)
  then show ?thesis by (simp only: fresh_table)
qed

text \<open>
  Claim C9. Whenever the import returns a result, its \<open>records_updated\<close> is 0: the
  counter starts at 0 and no step of the loops changes it.
\<close>

theorem updated_counter_zero:
  "load_netflix_data_from_csv db csv = (Inr r, db') \<Longrightarrow> records_updated r = 0"
proof -
  assume "load_netflix_data_from_csv db csv = (Inr r, db')"
  from load_success [OF this] obtain df n rows where
    i: "import_batches (db, \<lparr>n_inserted = 0, n_updated = 0, n_skipped = 0\<rparr>)
          (batches batch_size df) = Inr (db', n)"
    and r: "records_updated r = n_updated n"
    by auto
  from import_batches_Inr(1) [OF i] r show ?thesis by simp
qed

text \<open>A file of three new rows: the run returns a result, with \<open>records_updated\<close> 0.\<close>

theorem updated_counter_zero_witness:
  "\<exists>r db'. load_netflix_data_from_csv (fresh False [])
       (Inr [csv_blank ''s1'' (Some 2020), csv_blank ''s2'' None, csv_blank ''s3'' (Some 0)])
       = (Inr r, db')
     \<and> records_inserted r = 3 \<and> records_updated r = 0"
  using three_rows_first_run updated_counter_zero [OF three_rows_first_run] by simp

subsection \<open>A failing run\<close>

lemma import_result_fresh:
  assumes "import_batches (db, n) bs = Inr (db', n')" and "pending db = []"
  shows "pending db' = []"
proof (cases "bs = []")
  case True
  with assms show ?thesis by simp
next
  case False
  with import_batches_Inr(5) [OF assms(1)] show ?thesis by simp
qed

text \<open>If the batch after \<open>k\<close> good ones raises, the run raises, and leaves the session of
  the \<open>k\<close> good ones.\<close>

lemma load_fails_at:
  assumes "pending db = []" and "k < length (batches batch_size df)"
    and "import_batches (db, \<lparr>n_inserted = 0, n_updated = 0, n_skipped = 0\<rparr>)
           (take k (batches batch_size df)) = Inr (dbk, nk)"
    and "batch_error (dbk, nk) (batches batch_size df ! k) = Some e"
  shows "load_netflix_data_from_csv db (Inr df) = (Inl e, dbk)"
proof -
  from import_batches_fails [OF assms(2) assms(3) assms(4)] obtain dbe where
    f: "import_batches (db, \<lparr>n_inserted = 0, n_updated = 0, n_skipped = 0\<rparr>)
          (batches batch_size df) = Inl (e, dbe)"
    and r: "rollback dbe = rollback dbk"
    by blast
  have "pending dbk = []"
    using assms(3) assms(1) by (rule import_result_fresh)
  then have "rollback dbe = dbk" using r by (simp add: rollback_idem)
  with f show ?thesis by (simp add: load_netflix_data_from_csv_def)
qed

lemma load_prefix_ok:
  assumes "pending db = []"
    and "import_batches (db, \<lparr>n_inserted = 0, n_updated = 0, n_skipped = 0\<rparr>)
           (take k (batches batch_size df)) = Inr (dbk, nk)"
  shows "\<exists>r. load_netflix_data_from_csv db (Inr (take (k * batch_size) df)) = (Inr r, dbk)"
proof -
  have p: "pending dbk = []"
    using assms(2) assms(1) by (rule import_result_fresh)
  have "import_batches (db, \<lparr>n_inserted = 0, n_updated = 0, n_skipped = 0\<rparr>)
      (batches batch_size (take (k * batch_size) df)) = Inr (dbk, nk)"
    using assms(2) by (simp add: batches_take batch_size_pos)
  from load_of_import [OF this session_query_fresh [OF p]] show ?thesis by blast
qed

lemma load_next_fails:
  assumes "pending db = []" and "k < length (batches batch_size df)"
    and "import_batches (db, \<lparr>n_inserted = 0, n_updated = 0, n_skipped = 0\<rparr>)
           (take k (batches batch_size df)) = Inr (dbk, nk)"
    and "batch_error (dbk, nk) (batches batch_size df ! k) = Some e"
  shows "load_netflix_data_from_csv db (Inr (take (Suc k * batch_size) df)) = (Inl e, dbk)"
proof -
  let ?bs = "batches batch_size df"
  let ?df' = "take (Suc k * batch_size) df"
  have b: "batches batch_size ?df' = take (Suc k) ?bs"
    using batch_size_pos by (rule batches_take)
  have k': "k < length (batches batch_size ?df')"
    unfolding b using assms(2) by simp
  have t: "take k (batches batch_size ?df') = take k ?bs"
    unfolding b by (simp add: min_def)
  have n: "batches batch_size ?df' ! k = ?bs ! k"
    unfolding b by simp
  have i: "import_batches (db, \<lparr>n_inserted = 0, n_updated = 0, n_skipped = 0\<rparr>)
      (take k (batches batch_size ?df')) = Inr (dbk, nk)"
    unfolding t by (rule assms(3))
  have f: "batch_error (dbk, nk) (batches batch_size ?df' ! k) = Some e"
    unfolding n by (rule assms(4))
  show ?thesis
    using assms(1) k' i f by (rule load_fails_at)
qed

text \<open>
  Claim C8. Let the session have nothing pending when the import starts. A read or parse
  error is raised again to the caller, and the session is as it was. If the batch after
  \<open>k\<close> committed batches raises a store error, that error is raised again to the caller,
  and the run leaves exactly the session the \<open>k\<close> committed batches made. After any
  failed run nothing is pending. And every failed run on a file that could be read is of
  this kind: there is a \<open>k\<close> such that the first \<open>k\<close> batches were committed, the batch
  after them raised the error, the session left is the one a successful import of the
  first \<open>k\<close> batches alone leaves (importing one batch more fails in the same way), and
  the table is the table before the run followed by rows of these \<open>k\<close> batches only.
\<close>

theorem failed_import_rolls_back:
  assumes "pending db = []"
  shows "load_netflix_data_from_csv db (Inl e) = (Inl e, db)
   \<and> (k < length (batches batch_size df)
        \<and> import_batches (db, \<lparr>n_inserted = 0, n_updated = 0, n_skipped = 0\<rparr>)
             (take k (batches batch_size df)) = Inr (dbk, nk)
        \<and> batch_error (dbk, nk) (batches batch_size df ! k) = Some e
      \<longrightarrow> load_netflix_data_from_csv db (Inr df) = (Inl e, dbk))
   \<and> (load_netflix_data_from_csv db csv = (Inl e, db') \<longrightarrow> pending db' = [])
   \<and> (load_netflix_data_from_csv db (Inr df) = (Inl e, db') \<longrightarrow>
        (\<exists>j nj r new. j < length (batches batch_size df)
           \<and> import_batches (db, \<lparr>n_inserted = 0, n_updated = 0, n_skipped = 0\<rparr>)
                (take j (batches batch_size df)) = Inr (db', nj)
           \<and> batch_error (db', nj) (batches batch_size df ! j) = Some e
           \<and> load_netflix_data_from_csv db (Inr (take (j * batch_size) df)) = (Inr r, db')
           \<and> load_netflix_data_from_csv db (Inr (take (Suc j * batch_size) df)) = (Inl e, db')
           \<and> committed db' = committed db @ new
           \<and> set new \<subseteq> new_content ` set (take (j * batch_size) df)))"
proof -
  let ?c0 = "\<lparr>n_inserted = 0, n_updated = 0, n_skipped = 0\<rparr>"
  let ?bs = "batches batch_size df"
  have a1: "load_netflix_data_from_csv db (Inl e) = (Inl e, db)"
    using assms by (simp add: load_netflix_data_from_csv_def rollback_idem)
  have a2: "load_netflix_data_from_csv db (Inr df) = (Inl e, dbk)"
    if "k < length ?bs" and "import_batches (db, ?c0) (take k ?bs) = Inr (dbk, nk)"
      and "batch_error (dbk, nk) (?bs ! k) = Some e"
    using assms that by (rule load_fails_at)
  have b1: "pending db' = []" if "load_netflix_data_from_csv db csv = (Inl e, db')"
  proof -
    from load_failure [OF that]
    consider (read) "db' = rollback db"
      | (store) df' dbe where "db' = rollback dbe"
      | (stats) df' db1 n where "db' = rollback db1"
      by blast
    then show ?thesis by cases (simp_all add: rollback_def)
  qed
  have b2: "\<exists>j nj r new. j < length ?bs
           \<and> import_batches (db, ?c0) (take j ?bs) = Inr (db', nj)
           \<and> batch_error (db', nj) (?bs ! j) = Some e
           \<and> load_netflix_data_from_csv db (Inr (take (j * batch_size) df)) = (Inr r, db')
           \<and> load_netflix_data_from_csv db (Inr (take (Suc j * batch_size) df)) = (Inl e, db')
           \<and> committed db' = committed db @ new
           \<and> set new \<subseteq> new_content ` set (take (j * batch_size) df)"
    if run: "load_netflix_data_from_csv db (Inr df) = (Inl e, db')"
  proof -
    from load_failure [OF run]
    consider (store) dbe where
        "import_batches (db, ?c0) ?bs = Inl (e, dbe)" "db' = rollback dbe"
      | (stats) db1 n where
        "import_batches (db, ?c0) ?bs = Inr (db1, n)" "session_query db1 = Inl e"
      by auto
    then show ?thesis
    proof cases
      case store
      from import_batches_Inl_at [OF store(1)] obtain j dbj nj where
        j1: "j < length ?bs" and
        j2: "import_batches (db, ?c0) (take j ?bs) = Inr (dbj, nj)" and
        j3: "batch_error (dbj, nj) (?bs ! j) = Some e" and
        j4: "rollback dbe = rollback dbj"
        by blast
      have p: "pending dbj = []"
        using j2 assms by (rule import_result_fresh)
      then have d: "db' = dbj" using store(2) j4 by (simp add: rollback_idem)
      from load_prefix_ok [OF assms j2] obtain r where
        l1: "load_netflix_data_from_csv db (Inr (take (j * batch_size) df)) = (Inr r, dbj)"
        by blast
      have l2: "load_netflix_data_from_csv db (Inr (take (Suc j * batch_size) df)) = (Inl e, dbj)"
        using assms j1 j2 j3 by (rule load_next_fails)
      from import_batches_prefix [OF j2] obtain new where
        n1: "committed dbj @ pending dbj = committed db @ pending db @ new" and
        n2: "set new \<subseteq> new_content ` set (concat (take j ?bs))"
        by blast
      have c: "committed dbj = committed db @ new"
        using n1 p assms by simp
      have "concat (take j ?bs) = take (j * batch_size) df"
        using concat_batches [OF batch_size_pos, of "take (j * batch_size) df"]
        by (simp add: batches_take batch_size_pos)
      then have s: "set new \<subseteq> new_content ` set (take (j * batch_size) df)"
        using n2 by simp
      from j1 j2 j3 l1 l2 c s show ?thesis unfolding d by blast
    next
      case stats
      have "pending db1 = []"
        using stats(1) assms by (rule import_result_fresh)
      then have "session_query db1 = Inr (committed db1)" by (rule session_query_fresh)
      with stats(2) show ?thesis by simp
    qed
  qed
  from a1 a2 b1 b2 show ?thesis by blast
qed

text \<open>
  A file of 102 rows for a session that does not autoflush: a first batch of 100 rows with
  different ids, then two rows with the same id. The second batch fails on the unique
  constraint; the table holds the first batch and nothing else.
\<close>

lemma duplicate_in_second_batch:
  "load_netflix_data_from_csv (fresh False [])
     (Inr (hundred_rows @ [csv_blank ''s1'' None, csv_blank ''s1'' None]))
   = (Inl IntegrityError, fresh False (map new_content hundred_rows))"
proof -
  have "load_netflix_data_from_csv (fresh False [])
     (Inr (hundred_rows @ [csv_blank ''s1'' None, csv_blank ''s1'' None]))
   = (Inl IntegrityError,
      (fresh False [])\<lparr>committed := map new_content hundred_rows, pending := []\<rparr>)"
    by (rule load_eqI; code_simp)
  then show ?thesis by (simp only: fresh_table)
qed

theorem failed_import_rolls_back_witness:
  "load_netflix_data_from_csv (fresh False [])
     (Inr (hundred_rows @ [csv_blank ''s1'' None, csv_blank ''s1'' None]))
   = (Inl IntegrityError, fresh False (map new_content hundred_rows))
   \<and> pending (fresh False []) = []
   \<and> (\<exists>j nj r. j < length (batches batch_size
                (hundred_rows @ [csv_blank ''s1'' None, csv_blank ''s1'' None]))
         \<and> import_batches (fresh False [], \<lparr>n_inserted = 0, n_updated = 0, n_skipped = 0\<rparr>)
              (take j (batches batch_size
                (hundred_rows @ [csv_blank ''s1'' None, csv_blank ''s1'' None])))
             = Inr (fresh False (map new_content hundred_rows), nj)
         \<and> batch_error (fresh False (map new_content hundred_rows), nj)
              (batches batch_size
                (hundred_rows @ [csv_blank ''s1'' None, csv_blank ''s1'' None]) ! j)
             = Some IntegrityError
         \<and> load_netflix_data_from_csv (fresh False [])
              (Inr (take (j * batch_size)
                 (hundred_rows @ [csv_blank ''s1'' None, csv_blank ''s1'' None])))
             = (Inr r, fresh False (map new_content hundred_rows)))"
proof -
  have p: "pending (fresh False []) = []"
    by (simp add: fresh_def)
  from failed_import_rolls_back [OF p,
      where df = "hundred_rows @ [csv_blank ''s1'' None, csv_blank ''s1'' None]"
        and e = IntegrityError and db' = "fresh False (map new_content hundred_rows)"]
    duplicate_in_second_batch p
  show ?thesis by blast
qed

subsection \<open>Importing a file twice\<close>

lemma session_pending_Nil: "pending db = [] \<Longrightarrow> db\<lparr>pending := []\<rparr> = db"
  by (cases db) simp

lemma commit_fresh: "pending db = [] \<Longrightarrow> commit db = Inr db"
  by (simp add: commit_def flush_def session_pending_Nil)

lemma all_rows_fresh: "pending db = [] \<Longrightarrow> all_rows db = set (committed db)"
  by (simp add: all_rows_def)

lemma process_row_known:
  assumes "pending db = []" and "csv_show_id row \<in> show_id ` set (committed db)"
  shows "process_row (db, n) row = Inr (db, n\<lparr>n_skipped := n_skipped n + 1\<rparr>)"
proof -
  from assms(2) have "find (\<lambda>c. show_id c = csv_show_id row) (committed db) \<noteq> None"
    by (auto simp: find_None_iff)
  then show ?thesis
    using assms(1) by (auto simp: process_row_def session_query_fresh)
qed

lemma process_batch_known:
  assumes "pending db = []" and "csv_show_id ` set rows \<subseteq> show_id ` set (committed db)"
  shows "process_batch (db, n) rows = Inr (db, n\<lparr>n_skipped := n_skipped n + int (length rows)\<rparr>)"
  using assms(2)
proof (induction rows arbitrary: n)
  case Nil
  then show ?case by simp
next
  case (Cons row rows)
  then have "csv_show_id row \<in> show_id ` set (committed db)" by simp
  then have r: "process_row (db, n) row = Inr (db, n\<lparr>n_skipped := n_skipped n + 1\<rparr>)"
    using assms(1) by (intro process_row_known)
  have "process_batch (db, n\<lparr>n_skipped := n_skipped n + 1\<rparr>) rows
      = Inr (db, n\<lparr>n_skipped := n_skipped n + 1\<rparr>\<lparr>n_skipped :=
           n_skipped (n\<lparr>n_skipped := n_skipped n + 1\<rparr>) + int (length rows)\<rparr>)"
    using Cons.prems by (intro Cons.IH) simp
  with r show ?case by (simp add: add.assoc)
qed

lemma import_batches_known:
  assumes "pending db = []" and "csv_show_id ` set (concat bs) \<subseteq> show_id ` set (committed db)"
  shows "import_batches (db, n) bs
           = Inr (db, n\<lparr>n_skipped := n_skipped n + int (length (concat bs))\<rparr>)"
  using assms(2)
proof (induction bs arbitrary: n)
  case Nil
  then show ?case by simp
next
  case (Cons batch rest)
  let ?n1 = "n\<lparr>n_skipped := n_skipped n + int (length batch)\<rparr>"
  from Cons.prems have "csv_show_id ` set batch \<subseteq> show_id ` set (committed db)"
    by (simp add: image_Un)
  then have b: "process_batch (db, n) batch = Inr (db, ?n1)"
    using assms(1) by (intro process_batch_known)
  have c: "commit db = Inr db" using assms(1) by (rule commit_fresh)
  have "import_batches (db, ?n1) rest
      = Inr (db, ?n1\<lparr>n_skipped := n_skipped ?n1 + int (length (concat rest))\<rparr>)"
    using Cons.prems by (intro Cons.IH) (simp add: image_Un)
  with b c show ?case by (simp add: add.assoc)
qed

lemma successful_import_again:
  assumes "load_netflix_data_from_csv db csv = (Inr r1, db1)"
  shows "\<exists>r2. load_netflix_data_from_csv db1 csv = (Inr r2, db1)
     \<and> records_inserted r2 = 0
     \<and> records_skipped r2 = records_processed r2
     \<and> records_processed r2 = records_processed r1
     \<and> statistics r2 = statistics r1"
proof -
  let ?c0 = "\<lparr>n_inserted = 0, n_updated = 0, n_skipped = 0\<rparr>"
  from load_success [OF assms] obtain df n rows where
    csv: "csv = Inr df" and
    i: "import_batches (db, ?c0) (batches batch_size df) = Inr (db1, n)" and
    q: "session_query db1 = Inr rows" and
    r1: "r1 = \<lparr> status = ''success'', records_processed = int (length df),
                  records_inserted = n_inserted n, records_updated = n_updated n,
                  records_skipped = n_skipped n, statistics = get_statistics rows \<rparr>"
    by blast
  show ?thesis
  proof (cases "df = []")
    case True
    then have "batches batch_size df = []" by (simp add: batches_Nil)
    with i have "db1 = db" "n = ?c0" by simp_all
    with assms r1 True show ?thesis by simp
  next
    case False
    then have ne: "batches batch_size df \<noteq> []"
      by (simp add: batches_eq_Nil batch_size_pos)
    with import_batches_Inr(5) [OF i] have p: "pending db1 = []" by simp
    have "csv_show_id ` set (concat (batches batch_size df)) \<subseteq> show_id ` all_rows db1"
      by (rule import_batches_Inr(2) [OF i])
    then have "csv_show_id ` set (concat (batches batch_size df)) \<subseteq> show_id ` set (committed db1)"
      using p by (simp add: all_rows_fresh)
    from import_batches_known [OF p this]
    have "import_batches (db1, ?c0) (batches batch_size df)
        = Inr (db1, ?c0\<lparr>n_skipped := n_skipped ?c0 + int (length (concat (batches batch_size df)))\<rparr>)" .
    then have i2: "import_batches (db1, ?c0) (batches batch_size df)
        = Inr (db1, \<lparr>n_inserted = 0, n_updated = 0, n_skipped = int (length df)\<rparr>)"
      by (simp add: concat_batches batch_size_pos)
    from load_of_import [OF i2 q] csv r1 show ?thesis by simp
  qed
qed

lemma process_row_counters:
  "process_row (db, n) row = Inl err \<Longrightarrow> process_row (db, m) row = Inl err"
  "process_row (db, n) row = Inr (db', n') \<Longrightarrow> \<exists>m'. process_row (db, m) row = Inr (db', m')"
  by (auto simp: process_row_def split: sum.splits option.splits)

lemma process_batch_counters:
  "(process_batch (db, n) rows = Inl err \<longrightarrow> process_batch (db, m) rows = Inl err)
   \<and> (\<forall>db' n'. process_batch (db, n) rows = Inr (db', n') \<longrightarrow>
         (\<exists>m'. process_batch (db, m) rows = Inr (db', m')))"
proof (induction rows arbitrary: db n m)
  case Nil
  then show ?case by simp
next
  case (Cons row rows)
  show ?case
  proof (cases "process_row (db, n) row")
    case (Inl err)
    from process_row_counters(1) [OF this] Inl show ?thesis by simp
  next
    case (Inr st)
    obtain db1 n1 where st: "st = (db1, n1)" by (cases st)
    from process_row_counters(2) [OF Inr [unfolded st]] obtain m1 where
      m: "process_row (db, m) row = Inr (db1, m1)" by blast
    from Cons.IH [of db1 n1 m1] Inr st m show ?thesis by simp
  qed
qed

lemma import_batches_counters:
  "import_batches (db, n) bs = Inl err \<Longrightarrow> import_batches (db, m) bs = Inl err"
proof (induction bs arbitrary: db n m)
  case Nil
  then show ?case by simp
next
  case (Cons batch rest)
  show ?case
  proof (cases "process_batch (db, n) batch")
    case (Inl e)
    with process_batch_counters [of db n batch e m] Cons.prems show ?thesis by simp
  next
    case (Inr st)
    obtain db1 n1 where st: "st = (db1, n1)" by (cases st)
    from process_batch_counters [of db n batch err m] Inr st obtain m1 where
      m: "process_batch (db, m) batch = Inr (db1, m1)" by blast
    show ?thesis
    proof (cases "commit db1")
      case (Inl e)
      with Inr st m Cons.prems show ?thesis by simp
    next
      case c: (Inr db2)
      with Inr st Cons.prems have "import_batches (db2, n1) rest = Inl err" by simp
      from Cons.IH [OF this] have "import_batches (db2, m1) rest = Inl err" .
      with m c show ?thesis by simp
    qed
  qed
qed

lemma failed_import_again:
  assumes "load_netflix_data_from_csv db csv = (Inl e, db1)" and "pending db = []"
  shows "load_netflix_data_from_csv db1 csv = (Inl e, db1)"
proof -
  let ?c0 = "\<lparr>n_inserted = 0, n_updated = 0, n_skipped = 0\<rparr>"
  from load_failure [OF assms(1)]
  consider (read) "csv = Inl e" "db1 = rollback db"
    | (store) df dbe where "csv = Inr df"
      "import_batches (db, ?c0) (batches batch_size df) = Inl (e, dbe)" "db1 = rollback dbe"
    | (stats) df db2 n where "csv = Inr df"
      "import_batches (db, ?c0) (batches batch_size df) = Inr (db2, n)"
      "session_query db2 = Inl e"
    by blast
  then show ?thesis
  proof cases
    case read
    then show ?thesis by (simp add: load_netflix_data_from_csv_def rollback_def)
  next
    case store
    let ?bs = "batches batch_size df"
    from import_batches_Inl [OF store(2)] obtain k dbk nk where
      k2: "import_batches (db, ?c0) (take k ?bs) = Inr (dbk, nk)" and
      k3: "rollback dbe = rollback dbk"
      by blast
    have p: "pending dbk = []"
      using k2 assms(2) by (rule import_result_fresh)
    then have d: "db1 = dbk" using store(3) k3 by (simp add: rollback_idem)
    have "import_batches (db, ?c0) (take k ?bs @ drop k ?bs) = Inl (e, dbe)"
      using store(2) by simp
    then have rest: "import_batches (dbk, nk) (drop k ?bs) = Inl (e, dbe)"
      unfolding import_batches_append using k2 by simp
    have "csv_show_id ` set (concat (take k ?bs)) \<subseteq> show_id ` all_rows dbk"
      by (rule import_batches_Inr(2) [OF k2])
    then have "csv_show_id ` set (concat (take k ?bs)) \<subseteq> show_id ` set (committed dbk)"
      using p by (simp add: all_rows_fresh)
    from import_batches_known [OF p this] obtain n2 where
      first: "import_batches (dbk, ?c0) (take k ?bs) = Inr (dbk, n2)" by blast
    have "import_batches (dbk, n2) (drop k ?bs) = Inl (e, dbe)"
      using rest by (rule import_batches_counters)
    with first have "import_batches (dbk, ?c0) (take k ?bs @ drop k ?bs) = Inl (e, dbe)"
      unfolding import_batches_append by simp
    then have "import_batches (dbk, ?c0) ?bs = Inl (e, dbe)" by simp
    then have "load_netflix_data_from_csv dbk (Inr df) = (Inl e, rollback dbe)"
      by (simp add: load_netflix_data_from_csv_def)
    with d store(1) store(3) show ?thesis by simp
  next
    case stats
    have "pending db2 = []"
      using stats(2) assms(2) by (rule import_result_fresh)
    then have "session_query db2 = Inr (committed db2)" by (rule session_query_fresh)
    with stats(3) show ?thesis by simp
  qed
qed

text \<open>
  Claim C4. If an import of a file returns a result, importing the same file again into
  the session it left returns a result too and leaves the session, and with it the
  table, unchanged: no row is inserted, every row of the file is counted as skipped, and
  the statistics (the total count among them) are those of the first run. If the first
  import, into a session with nothing pending, fails, the second one fails with the same
  error and again leaves the table as the first one left it.
\<close>

theorem import_idempotent:
  "(load_netflix_data_from_csv db csv = (Inr r1, db1) \<longrightarrow>
      (\<exists>r2. load_netflix_data_from_csv db1 csv = (Inr r2, db1)
         \<and> records_inserted r2 = 0
         \<and> records_skipped r2 = records_processed r2
         \<and> records_processed r2 = records_processed r1
         \<and> statistics r2 = statistics r1))
   \<and> (pending db = [] \<longrightarrow> load_netflix_data_from_csv db csv = (Inl e, db1) \<longrightarrow>
        load_netflix_data_from_csv db1 csv = (Inl e, db1))"
  using successful_import_again [of db csv r1 db1] failed_import_again [of db csv e db1]
  by blast

text \<open>The three-row file of above, imported a second time: 0 inserted, 3 skipped, and
  the total stays 3.\<close>

theorem import_idempotent_witness:
  "\<exists>r2. load_netflix_data_from_csv
         (fresh False [blank\<lparr>show_id := ''s1'', release_year := Some 2020\<rparr>,
                       blank\<lparr>show_id := ''s2''\<rparr>, blank\<lparr>show_id := ''s3''\<rparr>])
         (Inr [csv_blank ''s1'' (Some 2020), csv_blank ''s2'' None, csv_blank ''s3'' (Some 0)])
       = (Inr r2, fresh False [blank\<lparr>show_id := ''s1'', release_year := Some 2020\<rparr>,
                       blank\<lparr>show_id := ''s2''\<rparr>, blank\<lparr>show_id := ''s3''\<rparr>])
     \<and> records_inserted r2 = 0 \<and> records_skipped r2 = 3
     \<and> total_content (statistics r2) = 3"
  using three_rows_first_run
    import_idempotent [where db = "fresh False []"
      and csv = "Inr [csv_blank ''s1'' (Some 2020), csv_blank ''s2'' None, csv_blank ''s3'' (Some 0)]"
      and ?db1.0 = "fresh False [blank\<lparr>show_id := ''s1'', release_year := Some 2020\<rparr>,
                       blank\<lparr>show_id := ''s2''\<rparr>, blank\<lparr>show_id := ''s3''\<rparr>]"
      and ?r1.0 = "\<lparr> status = ''success'', records_processed = 3, records_inserted = 3,
            records_updated = 0, records_skipped = 0,
            statistics = \<lparr> total_content = 3, movies = 0, tv_shows = 0, by_rating = [],
               by_category = [] \<rparr> \<rparr>"]
  by auto

end
